theory Spec2Isabelle
  imports Main
begin

section \<open>Data model of \<open>graphs.py\<close>\<close>

text \<open>
  Nodes are arbitrary hashable Python values (\<open>Any\<close>). The code looks at a node in three
  ways only: by equality (\<open>==\<close>, dictionary and set membership), by comparison with the
  default argument \<open>None\<close>, and by truthiness (\<open>and end_node\<close> in \<open>_validate_nodes\<close>).
  The model keeps the values for which these three differ: \<open>None\<close>, integers and strings.
\<close>

datatype pynode = PNone | PInt int | PStr string

text \<open>Python truthiness: \<open>None\<close>, \<open>0\<close> and the empty string are falsy.\<close>

fun truthy :: "pynode \<Rightarrow> bool" where
  "truthy PNone = False"
| "truthy (PInt i) = (i \<noteq> 0)"
| "truthy (PStr s) = (s \<noteq> [])"

text \<open>
  An edge is the single-entry dictionary \<open>{neighbour: weight}\<close>; the weight is
  \<open>Union[int, float, None]\<close> and no algorithm reads it, so its type is a parameter
  and \<open>None\<close> is the absent weight.
\<close>

type_synonym 'w edge = "pynode \<times> 'w option"

text \<open>\<open>list(edge.keys())[0]\<close>\<close>

definition neighbour :: "'w edge \<Rightarrow> pynode" where
  "neighbour edge = fst edge"

datatype graph_kind = BaseGraph | UndirectedGraph

text \<open>\<open>raise ValueError(f'Node {missing_node} not present in Graph')\<close>\<close>

datatype error = ValueError pynode

text \<open>
  The object state. \<open>nodes\<close> is the \<open>defaultdict(list)\<close> in insertion order, as an
  association list. \<open>kind\<close> records the class of the object, for the dispatch of
  \<open>_add_edge\<close>.
\<close>

record 'w graph =
  kind :: graph_kind
  fifo_queue :: "pynode list"
  nodes :: "(pynode \<times> 'w edge list) list"
  visited_nodes :: "pynode set"
  traversal_order :: "pynode list"
  has_path :: bool

text \<open>
  Modelled from the spec: the \<open>FifoQueue\<close> class of the module \<open>queues\<close>, which is
  not part of the sources at hand. The spec gives it \<open>enqueue\<close>, \<open>dequeue\<close> and an
  emptiness test in first-in-first-out order; the model is a list whose head is the
  oldest element.
\<close>

definition enqueue :: "pynode list \<Rightarrow> pynode \<Rightarrow> pynode list" where
  "enqueue q item = q @ [item]"

text \<open>\<open>__init__\<close>, with a new, empty queue injected.\<close>

definition init_graph :: "graph_kind \<Rightarrow> 'w graph" where
  "init_graph k = \<lparr>kind = k, fifo_queue = [], nodes = [], visited_nodes = {},
     traversal_order = [], has_path = False\<rparr>"

text \<open>\<open>node in self._nodes\<close>\<close>

definition is_node :: "'w graph \<Rightarrow> pynode \<Rightarrow> bool" where
  "is_node g node = (map_of (nodes g) node \<noteq> None)"

text \<open>
  \<open>self._nodes[node]\<close>. For a missing key a \<open>defaultdict\<close> gives the empty list (and
  stores it). The traversals read at the start node, which \<open>_validate_nodes\<close> has found,
  at keys, at neighbours and at queued nodes; after any sequence of public calls all of
  these are keys of the dictionary (lemmas \<open>graph_inv_after_calls\<close> and
  \<open>graph_nodes_is_node\<close> below), so no read ever stores an entry and the model of a
  read returns the list only.
\<close>

definition edges_of :: "'w graph \<Rightarrow> pynode \<Rightarrow> 'w edge list" where
  "edges_of g node = (case map_of (nodes g) node of None \<Rightarrow> [] | Some es \<Rightarrow> es)"

definition add_node :: "'w graph \<Rightarrow> pynode \<Rightarrow> 'w graph" where
  "add_node g node =
     (if \<not> is_node g node then g\<lparr>nodes := nodes g @ [(node, [])]\<rparr> else g)"

definition validate_nodes :: "'w graph \<Rightarrow> pynode \<Rightarrow> pynode \<Rightarrow> error + unit" where
  "validate_nodes g start_node end_node =
     (if \<not> is_node g start_node \<or> (\<not> is_node g end_node \<and> truthy end_node)
      then Inl (ValueError (if \<not> is_node g start_node then start_node else end_node))
      else Inr ())"

text \<open>
  \<open>self._nodes[key].append(edge)\<close> on the \<open>defaultdict\<close>: a missing key is first stored
  with an empty list, at the end of the dictionary order.
\<close>

fun append_edge ::
  "(pynode \<times> 'w edge list) list \<Rightarrow> pynode \<Rightarrow> 'w edge \<Rightarrow> (pynode \<times> 'w edge list) list" where
  "append_edge [] key edge = [(key, [edge])]"
| "append_edge ((k, es) # rest) key edge =
     (if k = key then (k, es @ [edge]) # rest else (k, es) # append_edge rest key edge)"

text \<open>\<open>BaseGraph._add_edge\<close>: \<open>pass\<close>.\<close>

definition add_edge_BaseGraph ::
  "'w graph \<Rightarrow> pynode \<Rightarrow> pynode \<Rightarrow> 'w option \<Rightarrow> (error + unit) \<times> 'w graph" where
  "add_edge_BaseGraph g from_node to_node weight = (Inr (), g)"

text \<open>\<open>UndirectedGraph._add_edge\<close>. A raised error leaves the object as it was.\<close>

definition add_edge_UndirectedGraph ::
  "'w graph \<Rightarrow> pynode \<Rightarrow> pynode \<Rightarrow> 'w option \<Rightarrow> (error + unit) \<times> 'w graph" where
  "add_edge_UndirectedGraph g from_node to_node weight =
     (case validate_nodes g from_node to_node of
        Inl e \<Rightarrow> (Inl e, g)
      | Inr _ \<Rightarrow>
          (let g1 = g\<lparr>nodes := append_edge (nodes g) from_node (to_node, weight)\<rparr>;
               g2 = g1\<lparr>nodes := append_edge (nodes g1) to_node (from_node, weight)\<rparr>
           in (Inr (), g2)))"

text \<open>\<open>add_edge\<close>: \<open>self._add_edge(...)\<close>, resolved by the class of the object.\<close>

definition add_edge ::
  "'w graph \<Rightarrow> pynode \<Rightarrow> pynode \<Rightarrow> 'w option \<Rightarrow> (error + unit) \<times> 'w graph" where
  "add_edge g from_node to_node weight =
     (case kind g of
        BaseGraph \<Rightarrow> add_edge_BaseGraph g from_node to_node weight
      | UndirectedGraph \<Rightarrow> add_edge_UndirectedGraph g from_node to_node weight)"

section \<open>Traversal primitives\<close>

text \<open>The nodes that occur as a neighbour in some edge list; a finite set.\<close>

definition graph_nodes :: "'w graph \<Rightarrow> pynode set" where
  "graph_nodes g = (\<Union>(k, es) \<in> set (nodes g). neighbour ` set es)"

text \<open>
  \<open>_dfs\<close>. The recursion of the source is kept: \<open>dfs\<close> is the body of the method and
  \<open>dfs_for\<close> is its \<open>for edge in self._nodes[node]\<close> loop over the edges that are left.
  The \<open>return\<close> on \<open>node == end_node\<close> leaves the innermost call only: the loops of
  the callers go on.
\<close>

function dfs :: "'w graph \<Rightarrow> pynode \<Rightarrow> pynode \<Rightarrow> 'w graph"
  and dfs_for :: "'w graph \<Rightarrow> 'w edge list \<Rightarrow> pynode \<Rightarrow> 'w graph" where
  "dfs g node end_node =
     (let g1 = g\<lparr>visited_nodes := insert node (visited_nodes g),
                 traversal_order := traversal_order g @ [node]\<rparr>
      in if node = end_node then g1\<lparr>has_path := True\<rparr>
         else dfs_for g1 (edges_of g1 node) end_node)"
| "dfs_for g [] end_node = g"
| "dfs_for g (edge # rest) end_node =
     (if neighbour edge \<notin> visited_nodes g
      then dfs_for (dfs g (neighbour edge) end_node) rest end_node
      else dfs_for g rest end_node)"
  by pat_completeness auto


text \<open>
  Termination: every call of \<open>dfs\<close> from the loop marks a node that was not marked,
  and the marked nodes never shrink.
\<close>

lemma finite_graph_nodes: "finite (graph_nodes g)"
  by (auto simp: graph_nodes_def)

lemma edges_of_graph_nodes: "neighbour ` set (edges_of g node) \<subseteq> graph_nodes g"
  proof
  fix n assume "n \<in> neighbour ` set (edges_of g node)"
  then obtain e where e: "e \<in> set (edges_of g node)" "n = neighbour e" by auto
  then obtain es where es: "map_of (nodes g) node = Some es" "e \<in> set es"
    by (cases "map_of (nodes g) node") (auto simp: edges_of_def)
  then have "(node, es) \<in> set (nodes g)" by (auto dest: map_of_SomeD)
  with e es show "n \<in> graph_nodes g" by (force simp: graph_nodes_def)
qed

lemma graph_nodes_cong: "nodes g' = nodes g \<Longrightarrow> graph_nodes g' = graph_nodes g"
  by (simp add: graph_nodes_def)

lemma edges_of_cong: "nodes g' = nodes g \<Longrightarrow> edges_of g' node = edges_of g node"
  by (simp add: edges_of_def)

lemma dfs_partial:
  shows "dfs_dfs_for_dom (Inl (g, node, end_node)) \<Longrightarrow>
           nodes (dfs g node end_node) = nodes g \<and>
           visited_nodes g \<subseteq> visited_nodes (dfs g node end_node)"
    and "dfs_dfs_for_dom (Inr (g, es, end_node)) \<Longrightarrow>
           nodes (dfs_for g es end_node) = nodes g \<and>
           visited_nodes g \<subseteq> visited_nodes (dfs_for g es end_node)"
proof (induct g node end_node and g es end_node rule: dfs_dfs_for.pinduct)
  case (1 g node end_node)
  then show ?case by (auto simp: dfs.psimps Let_def)
next
  case (2 g end_node)
  then show ?case by (simp add: dfs_for.psimps)
next
  case (3 g edge rest end_node)
  then show ?case by (auto simp: dfs_for.psimps)
qed

definition dfs_rel :: "(('w graph \<times> pynode \<times> pynode) + ('w graph \<times> 'w edge list \<times> pynode)) rel" where
  "dfs_rel =
     (\<lambda>x. case x of
        Inl (g, node, e) \<Rightarrow> card (graph_nodes g - insert node (visited_nodes g))
      | Inr (g, es, e) \<Rightarrow> card ((graph_nodes g \<union> neighbour ` set es) - visited_nodes g))
     <*mlex*> (\<lambda>x. case x of Inl _ \<Rightarrow> Suc 0 | Inr _ \<Rightarrow> 0)
     <*mlex*> (\<lambda>x. case x of Inl _ \<Rightarrow> 0 | Inr (g, es, e) \<Rightarrow> length es)
     <*mlex*> {}"

lemma wf_dfs_rel: "wf dfs_rel"
  by (simp add: dfs_rel_def wf_mlex)

termination dfs
proof (relation dfs_rel)
  show "wf dfs_rel" by (rule wf_dfs_rel)
next
  fix g :: "'w graph" and node end_node x
  assume x: "x = g\<lparr>visited_nodes := insert node (visited_nodes g),
                traversal_order := traversal_order g @ [node]\<rparr>"
  have "graph_nodes x = graph_nodes g" using x by (simp add: graph_nodes_def)
  moreover have "neighbour ` set (edges_of x node) \<subseteq> graph_nodes x"
    by (rule edges_of_graph_nodes)
  ultimately have "(graph_nodes x \<union> neighbour ` set (edges_of x node)) - visited_nodes x
      = graph_nodes g - insert node (visited_nodes g)"
    using x by auto
  then show "(Inr (x, edges_of x node, end_node), Inl (g, node, end_node)) \<in> dfs_rel"
    by (simp add: dfs_rel_def mlex_prod_def)
next
  fix g :: "'w graph" and edge :: "'w edge" and rest end_node
  assume nv: "neighbour edge \<notin> visited_nodes g"
  have "graph_nodes g - insert (neighbour edge) (visited_nodes g)
        \<subset> (graph_nodes g \<union> neighbour ` set (edge # rest)) - visited_nodes g"
    using nv by auto
  then have "card (graph_nodes g - insert (neighbour edge) (visited_nodes g))
        < card ((graph_nodes g \<union> neighbour ` set (edge # rest)) - visited_nodes g)"
    by (intro psubset_card_mono) (auto simp: finite_graph_nodes)
  then show "(Inl (g, neighbour edge, end_node), Inr (g, edge # rest, end_node)) \<in> dfs_rel"
    by (simp add: dfs_rel_def mlex_prod_def)
next
  fix g :: "'w graph" and edge :: "'w edge" and rest end_node
  assume nv: "neighbour edge \<notin> visited_nodes g"
    and dom: "dfs_dfs_for_dom (Inl (g, neighbour edge, end_node))"
  let ?g' = "dfs g (neighbour edge) end_node"
  from dfs_partial(1)[OF dom] have n: "nodes ?g' = nodes g"
    and v: "visited_nodes g \<subseteq> visited_nodes ?g'" by auto
  have "graph_nodes ?g' = graph_nodes g" using n by (rule graph_nodes_cong)
  then have "(graph_nodes ?g' \<union> neighbour ` set rest) - visited_nodes ?g'
        \<subseteq> (graph_nodes g \<union> neighbour ` set (edge # rest)) - visited_nodes g"
    using v by auto
  then have "card ((graph_nodes ?g' \<union> neighbour ` set rest) - visited_nodes ?g')
        \<le> card ((graph_nodes g \<union> neighbour ` set (edge # rest)) - visited_nodes g)"
    by (intro card_mono) (auto simp: finite_graph_nodes)
  then show "(Inr (?g', rest, end_node), Inr (g, edge # rest, end_node)) \<in> dfs_rel"
    by (auto simp: dfs_rel_def mlex_prod_def)
next
  fix g :: "'w graph" and edge :: "'w edge" and rest end_node
  have "card ((graph_nodes g \<union> neighbour ` set rest) - visited_nodes g)
        \<le> card ((graph_nodes g \<union> neighbour ` set (edge # rest)) - visited_nodes g)"
    by (intro card_mono) (auto simp: finite_graph_nodes)
  then show "(Inr (g, rest, end_node), Inr (g, edge # rest, end_node)) \<in> dfs_rel"
    by (auto simp: dfs_rel_def mlex_prod_def)
qed

text \<open>
  \<open>_bfs\<close>. \<open>bfs_for\<close> is the inner \<open>for edge in self._nodes[current_node]\<close> loop,
  \<open>bfs_while\<close> the \<open>while self._fifo_queue\<close> loop (the queue is tested for emptiness
  and \<open>dequeue\<close> takes its head), \<open>bfs\<close> the method. On \<open>current_node == end_node\<close>
  the method returns with whatever is still in the queue.
\<close>

fun bfs_for :: "'w graph \<Rightarrow> 'w edge list \<Rightarrow> 'w graph" where
  "bfs_for g [] = g"
| "bfs_for g (edge # rest) =
     (if neighbour edge \<notin> visited_nodes g
      then bfs_for (g\<lparr>fifo_queue := enqueue (fifo_queue g) (neighbour edge),
                      visited_nodes := insert (neighbour edge) (visited_nodes g),
                      traversal_order := traversal_order g @ [neighbour edge]\<rparr>) rest
      else bfs_for g rest)"

function bfs_while :: "'w graph \<Rightarrow> pynode \<Rightarrow> 'w graph" where
  "bfs_while g end_node =
     (case fifo_queue g of
        [] \<Rightarrow> g
      | current_node # q \<Rightarrow>
          (let g1 = g\<lparr>fifo_queue := q\<rparr>
           in if current_node = end_node then g1\<lparr>has_path := True\<rparr>
              else bfs_while (bfs_for g1 (edges_of g1 current_node)) end_node))"
  by pat_completeness auto

lemma bfs_for_nodes: "nodes (bfs_for g es) = nodes g"
  by (induction es arbitrary: g) auto

lemma bfs_for_visited_mono: "visited_nodes g \<subseteq> visited_nodes (bfs_for g es)"
proof (induction es arbitrary: g)
  case Nil
  show ?case by simp
next
  case (Cons e es)
  show ?case using Cons.IH[of g] Cons.IH[of "g\<lparr>fifo_queue := enqueue (fifo_queue g) (neighbour e),
                      visited_nodes := insert (neighbour e) (visited_nodes g),
                      traversal_order := traversal_order g @ [neighbour e]\<rparr>"]
    by auto
qed

lemma bfs_for_visited_upper:
  "visited_nodes (bfs_for g es) \<subseteq> visited_nodes g \<union> neighbour ` set es"
proof (induction es arbitrary: g)
  case Nil
  show ?case by simp
next
  case (Cons e es)
  show ?case using Cons.IH[of g] Cons.IH[of "g\<lparr>fifo_queue := enqueue (fifo_queue g) (neighbour e),
                      visited_nodes := insert (neighbour e) (visited_nodes g),
                      traversal_order := traversal_order g @ [neighbour e]\<rparr>"]
    by auto
qed

lemma bfs_for_queue_same:
  "visited_nodes (bfs_for g es) = visited_nodes g \<Longrightarrow> fifo_queue (bfs_for g es) = fifo_queue g"
proof (induction es arbitrary: g)
  case Nil
  show ?case by simp
next
  case (Cons e es)
  show ?case
  proof (cases "neighbour e \<in> visited_nodes g")
    case True
    with Cons show ?thesis by simp
  next
    case False
    let ?g = "g\<lparr>fifo_queue := enqueue (fifo_queue g) (neighbour e),
                      visited_nodes := insert (neighbour e) (visited_nodes g),
                      traversal_order := traversal_order g @ [neighbour e]\<rparr>"
    have "neighbour e \<in> visited_nodes (bfs_for ?g es)"
      using bfs_for_visited_mono[of ?g es] by auto
    with False Cons.prems show ?thesis by simp
  qed
qed

termination bfs_while
proof (relation "(\<lambda>(g, e). card (graph_nodes g - visited_nodes g)) <*mlex*>
                 measure (\<lambda>(g, e). length (fifo_queue g))")
  show "wf ((\<lambda>(g :: 'w graph, e :: pynode). card (graph_nodes g - visited_nodes g)) <*mlex*>
            measure (\<lambda>(g, e). length (fifo_queue g)))"
    by (simp add: wf_mlex)
next
  fix g :: "'w graph" and end_node current_node q g1
  assume q: "fifo_queue g = current_node # q" and g1: "g1 = g\<lparr>fifo_queue := q\<rparr>"
  let ?es = "edges_of g1 current_node"
  let ?g' = "bfs_for g1 ?es"
  have gn: "graph_nodes ?g' = graph_nodes g"
    using g1 by (simp add: graph_nodes_def bfs_for_nodes)
  have mono: "visited_nodes g \<subseteq> visited_nodes ?g'"
    using bfs_for_visited_mono[of g1 ?es] g1 by simp
  have upper: "visited_nodes ?g' \<subseteq> visited_nodes g \<union> graph_nodes g"
    using bfs_for_visited_upper[of g1 ?es] edges_of_graph_nodes[of g1 current_node] g1
    by (auto simp: graph_nodes_def)
  show "((?g', end_node), (g, end_node)) \<in>
          (\<lambda>(g, e). card (graph_nodes g - visited_nodes g)) <*mlex*>
          measure (\<lambda>(g, e). length (fifo_queue g))"
  proof (cases "visited_nodes ?g' = visited_nodes g")
    case True
    then have "fifo_queue ?g' = q"
      using bfs_for_queue_same[of g1 ?es] g1 by simp
    with True gn q show ?thesis by (simp add: mlex_prod_def)
  next
    case False
    with mono obtain x where x: "x \<in> visited_nodes ?g'" "x \<notin> visited_nodes g" by auto
    with upper have "x \<in> graph_nodes g" by auto
    with x mono have "graph_nodes g - visited_nodes ?g' \<subset> graph_nodes g - visited_nodes g"
      by auto
    then have "card (graph_nodes g - visited_nodes ?g') < card (graph_nodes g - visited_nodes g)"
      by (intro psubset_card_mono) (auto simp: finite_graph_nodes)
    with gn show ?thesis by (simp add: mlex_prod_def)
  qed
qed

definition bfs :: "'w graph \<Rightarrow> pynode \<Rightarrow> pynode \<Rightarrow> 'w graph" where
  "bfs g start_node end_node =
     (let g1 = (if visited_nodes g \<noteq> {} then g\<lparr>visited_nodes := {}\<rparr> else g);
          g2 = (if traversal_order g1 \<noteq> [] then g1\<lparr>traversal_order := []\<rparr> else g1);
          g3 = g2\<lparr>fifo_queue := enqueue (fifo_queue g2) start_node\<rparr>;
          g4 = g3\<lparr>visited_nodes := insert start_node (visited_nodes g3)\<rparr>;
          g5 = g4\<lparr>traversal_order := traversal_order g4 @ [start_node]\<rparr>
      in bfs_while g5 end_node)"

section \<open>Derived queries\<close>

text \<open>
  The result of a public method is the pair of what it returns or raises and the object
  afterwards. \<open>None\<close> is the absent path.
\<close>

definition find_path ::
  "'w graph \<Rightarrow> pynode \<Rightarrow> pynode \<Rightarrow> (error + pynode list option) \<times> 'w graph" where
  "find_path g start_node end_node =
     (case validate_nodes g start_node end_node of
        Inl e \<Rightarrow> (Inl e, g)
      | Inr _ \<Rightarrow>
          (let g1 = dfs g start_node end_node;
               path = (if has_path g1 then Some (traversal_order g1) else None);
               g2 = (if has_path g1 then g1\<lparr>has_path := False\<rparr> else g1);
               g3 = g2\<lparr>visited_nodes := {}\<rparr>;
               g4 = g3\<lparr>traversal_order := []\<rparr>
           in (Inr path, g4)))"

definition find_shortest_path ::
  "'w graph \<Rightarrow> pynode \<Rightarrow> pynode \<Rightarrow> (error + pynode list option) \<times> 'w graph" where
  "find_shortest_path g start_node end_node =
     (case validate_nodes g start_node end_node of
        Inl e \<Rightarrow> (Inl e, g)
      | Inr _ \<Rightarrow>
          (let g1 = bfs g start_node end_node;
               path = (if has_path g1 then Some (traversal_order g1) else None);
               g2 = (if has_path g1 then g1\<lparr>has_path := False\<rparr> else g1);
               g3 = g2\<lparr>visited_nodes := {}\<rparr>;
               g4 = g3\<lparr>traversal_order := []\<rparr>
           in (Inr path, g4)))"

text \<open>\<open>_has_traversable_neighbours\<close>, applied to an edge list.\<close>

definition has_traversable_neighbours :: "'w edge list \<Rightarrow> bool" where
  "has_traversable_neighbours node = (if length node \<noteq> 0 then True else False)"

text \<open>The \<open>for node in self._nodes\<close> loop of \<open>connected_components\<close>, over the keys left.\<close>

fun connected_components_for :: "'w graph \<Rightarrow> pynode list \<Rightarrow> 'w graph" where
  "connected_components_for g [] = g"
| "connected_components_for g (node # rest) =
     (if has_traversable_neighbours (edges_of g node) \<and> node \<notin> visited_nodes g
      then connected_components_for (dfs g node PNone) rest
      else connected_components_for g rest)"

definition connected_components :: "'w graph \<Rightarrow> pynode set \<times> 'w graph" where
  "connected_components g =
     (let g1 = connected_components_for g (map fst (nodes g));
          connected_components = visited_nodes g1;
          g2 = g1\<lparr>visited_nodes := {}\<rparr>;
          g3 = g2\<lparr>traversal_order := []\<rparr>
      in (connected_components, g3))"

section \<open>Cycle detection (\<open>UndirectedGraph\<close>)\<close>

text \<open>
  \<open>_detect_cycles\<close>. The dictionary \<open>visited\<close> maps every node to a flag; the model
  keeps the set of the nodes whose flag is \<open>True\<close> and returns it with the result, as
  the caller shares the dictionary. \<open>detect_cycles_for\<close> is the loop over the edges
  that are left. The default \<open>parent_node\<close> is \<open>None\<close>. Every neighbour is a key of the
  storage after any sequence of public calls (lemmas \<open>graph_inv_after_calls\<close> and
  \<open>graph_nodes_is_node\<close> below), so no lookup \<open>visited[neighbour_node]\<close> fails there.
\<close>

function detect_cycles ::
    "'w graph \<Rightarrow> pynode \<Rightarrow> pynode set \<Rightarrow> pynode \<Rightarrow> bool \<times> pynode set"
  and detect_cycles_for ::
    "'w graph \<Rightarrow> 'w edge list \<Rightarrow> pynode \<Rightarrow> pynode set \<Rightarrow> pynode \<Rightarrow> bool \<times> pynode set" where
  "detect_cycles g current_node visited parent_node =
     detect_cycles_for g (edges_of g current_node) current_node
       (insert current_node visited) parent_node"
| "detect_cycles_for g [] current_node visited parent_node = (False, visited)"
| "detect_cycles_for g (edge # rest) current_node visited parent_node =
     (let neighbour_node = neighbour edge
      in if neighbour_node \<notin> visited
         then (case detect_cycles g neighbour_node visited current_node of
                 (True, visited') \<Rightarrow> (True, visited')
               | (False, visited') \<Rightarrow>
                   detect_cycles_for g rest current_node visited' parent_node)
         else if parent_node \<noteq> neighbour_node then (True, visited)
         else detect_cycles_for g rest current_node visited parent_node)"
  by pat_completeness auto


lemma detect_cycles_partial:
  shows "detect_cycles_detect_cycles_for_dom (Inl (g, current_node, visited, parent_node)) \<Longrightarrow>
           visited \<subseteq> snd (detect_cycles g current_node visited parent_node)"
    and "detect_cycles_detect_cycles_for_dom (Inr (g, es, current_node, visited, parent_node)) \<Longrightarrow>
           visited \<subseteq> snd (detect_cycles_for g es current_node visited parent_node)"
proof (induct g current_node visited parent_node and g es current_node visited parent_node
       rule: detect_cycles_detect_cycles_for.pinduct)
  case (1 g current_node visited parent_node)
  then show ?case by (auto simp: detect_cycles.psimps)
next
  case (2 g current_node visited parent_node)
  then show ?case by (simp add: detect_cycles_for.psimps)
next
  case (3 g edge rest current_node visited parent_node)
  show ?case
  proof (cases "neighbour edge \<in> visited")
    case True
    with 3 show ?thesis by (auto simp: detect_cycles_for.psimps Let_def)
  next
    case False
    obtain b v' where r: "detect_cycles g (neighbour edge) visited current_node = (b, v')"
      by (cases "detect_cycles g (neighbour edge) visited current_node")
    from 3(2)[OF refl False] r have v: "visited \<subseteq> v'" by simp
    show ?thesis
    proof (cases b)
      case True
      with 3(1) False r v show ?thesis by (simp add: detect_cycles_for.psimps Let_def)
    next
      case False
      from 3(3)[OF refl \<open>neighbour edge \<notin> visited\<close> r[symmetric]] False
      have "v' \<subseteq> snd (detect_cycles_for g rest current_node v' parent_node)" by simp
      with 3(1) \<open>neighbour edge \<notin> visited\<close> r v False show ?thesis
        by (auto simp: detect_cycles_for.psimps Let_def)
    qed
  qed
qed

text \<open>
  Termination, as for \<open>dfs\<close>. The order does not look at the parent, whose type is
  left open.
\<close>

definition detect_cycles_rel ::
  "(('w graph \<times> pynode \<times> pynode set \<times> 'p) +
    ('w graph \<times> 'w edge list \<times> pynode \<times> pynode set \<times> 'p)) rel" where
  "detect_cycles_rel =
     (\<lambda>x. case x of
        Inl (g, c, visited, p) \<Rightarrow> card (graph_nodes g - insert c visited)
      | Inr (g, es, c, visited, p) \<Rightarrow> card ((graph_nodes g \<union> neighbour ` set es) - visited))
     <*mlex*> (\<lambda>x. case x of Inl _ \<Rightarrow> Suc 0 | Inr _ \<Rightarrow> 0)
     <*mlex*> (\<lambda>x. case x of Inl _ \<Rightarrow> 0 | Inr (g, es, c, visited, p) \<Rightarrow> length es)
     <*mlex*> {}"

lemma wf_detect_cycles_rel: "wf detect_cycles_rel"
  by (simp add: detect_cycles_rel_def wf_mlex)

lemma detect_cycles_rel_enter:
  "(Inr (g, edges_of g c, c, insert c visited, p), Inl (g, c, visited, p)) \<in> detect_cycles_rel"
proof -
  have "(graph_nodes g \<union> neighbour ` set (edges_of g c)) - insert c visited
      = graph_nodes g - insert c visited"
    using edges_of_graph_nodes[of g c] by auto
  then show ?thesis by (simp add: detect_cycles_rel_def mlex_prod_def)
qed

lemma detect_cycles_rel_descend:
  assumes "neighbour edge \<notin> visited"
  shows "(Inl (g, neighbour edge, visited, p'), Inr (g, edge # rest, c, visited, p))
           \<in> detect_cycles_rel"
proof -
  from assms have "graph_nodes g - insert (neighbour edge) visited
        \<subset> (graph_nodes g \<union> neighbour ` set (edge # rest)) - visited"
    by auto
  then have "card (graph_nodes g - insert (neighbour edge) visited)
        < card ((graph_nodes g \<union> neighbour ` set (edge # rest)) - visited)"
    by (intro psubset_card_mono) (auto simp: finite_graph_nodes)
  then show ?thesis by (simp add: detect_cycles_rel_def mlex_prod_def)
qed

lemma detect_cycles_rel_next:
  assumes "visited \<subseteq> visited'"
  shows "(Inr (g, rest, c, visited', p), Inr (g, edge # rest, c, visited, p))
           \<in> detect_cycles_rel"
proof -
  from assms have "(graph_nodes g \<union> neighbour ` set rest) - visited'
        \<subseteq> (graph_nodes g \<union> neighbour ` set (edge # rest)) - visited"
    by auto
  then have "card ((graph_nodes g \<union> neighbour ` set rest) - visited')
        \<le> card ((graph_nodes g \<union> neighbour ` set (edge # rest)) - visited)"
    by (intro card_mono) (auto simp: finite_graph_nodes)
  then show ?thesis by (auto simp: detect_cycles_rel_def mlex_prod_def)
qed

termination detect_cycles
proof (relation detect_cycles_rel)
  show "wf (detect_cycles_rel ::
    (('w graph \<times> pynode \<times> pynode set \<times> pynode) +
     ('w graph \<times> 'w edge list \<times> pynode \<times> pynode set \<times> pynode)) rel)"
    by (rule wf_detect_cycles_rel)
next
  fix g :: "'w graph" and current_node visited and parent_node :: pynode
  show "(Inr (g, edges_of g current_node, current_node, insert current_node visited, parent_node),
         Inl (g, current_node, visited, parent_node)) \<in> detect_cycles_rel"
    by (rule detect_cycles_rel_enter)
next
  fix g :: "'w graph" and edge :: "'w edge" and rest current_node visited x
    and parent_node :: pynode
  assume "x = neighbour edge" "x \<notin> visited"
  then show "(Inl (g, x, visited, current_node),
              Inr (g, edge # rest, current_node, visited, parent_node)) \<in> detect_cycles_rel"
    using detect_cycles_rel_descend[of edge visited g current_node rest current_node parent_node]
    by simp
next
  fix g :: "'w graph" and edge :: "'w edge" and rest current_node visited x xa y
    and parent_node :: pynode
  assume r: "(xa, y) = detect_cycles g x visited current_node"
    and dom: "detect_cycles_detect_cycles_for_dom (Inl (g, x, visited, current_node))"
  from detect_cycles_partial(1)[OF dom] r have "visited \<subseteq> y"
    by (metis snd_conv)
  then show "(Inr (g, rest, current_node, y, parent_node),
              Inr (g, edge # rest, current_node, visited, parent_node)) \<in> detect_cycles_rel"
    by (rule detect_cycles_rel_next)
next
  fix g :: "'w graph" and edge :: "'w edge" and rest current_node visited
    and parent_node :: pynode
  show "(Inr (g, rest, current_node, visited, parent_node),
         Inr (g, edge # rest, current_node, visited, parent_node)) \<in> detect_cycles_rel"
    by (rule detect_cycles_rel_next) simp
qed



section \<open>Example clients\<close>

text \<open>
  A client that makes a new \<open>UndirectedGraph\<close> on an empty queue, calls \<open>add_node\<close> for
  every node of a list and then \<open>add_edge\<close> (without a weight) for every pair of a list,
  in the order of the lists.
\<close>

fun add_nodes :: "'w graph \<Rightarrow> pynode list \<Rightarrow> 'w graph" where
  "add_nodes g [] = g"
| "add_nodes g (node # rest) = add_nodes (add_node g node) rest"

fun add_edges :: "'w graph \<Rightarrow> (pynode \<times> pynode) list \<Rightarrow> 'w graph" where
  "add_edges g [] = g"
| "add_edges g ((from_node, to_node) # rest) =
     add_edges (snd (add_edge g from_node to_node None)) rest"

definition undirected :: "pynode list \<Rightarrow> (pynode \<times> pynode) list \<Rightarrow> int graph" where
  "undirected ns es = add_edges (add_nodes (init_graph UndirectedGraph) ns) es"

text \<open>The 4-cycle with the edges added in the order (A,B), (B,C), (C,D), (D,A).\<close>

definition four_cycle :: "int graph" where
  "four_cycle = undirected [PStr ''A'', PStr ''B'', PStr ''C'', PStr ''D'']
     [(PStr ''A'', PStr ''B''), (PStr ''B'', PStr ''C''),
      (PStr ''C'', PStr ''D''), (PStr ''D'', PStr ''A'')]"

text \<open>A with the two neighbours B and C.\<close>

definition fork :: "int graph" where
  "fork = undirected [PStr ''A'', PStr ''B'', PStr ''C'']
     [(PStr ''A'', PStr ''B''), (PStr ''A'', PStr ''C'')]"

text \<open>The fork with a further node D behind C.\<close>

definition fork_tail :: "int graph" where
  "fork_tail = undirected [PStr ''A'', PStr ''B'', PStr ''C'', PStr ''D'']
     [(PStr ''A'', PStr ''B''), (PStr ''A'', PStr ''C''), (PStr ''C'', PStr ''D'')]"

text \<open>Two components: X with the neighbours Y and Z, and the edge A-B.\<close>

definition two_parts :: "int graph" where
  "two_parts = undirected [PStr ''X'', PStr ''Y'', PStr ''Z'', PStr ''A'', PStr ''B'']
     [(PStr ''X'', PStr ''Y''), (PStr ''X'', PStr ''Z''), (PStr ''A'', PStr ''B'')]"


definition path_graph :: "int graph" where
  "path_graph = undirected [PStr ''A'', PStr ''B'', PStr ''C'']
     [(PStr ''A'', PStr ''B''), (PStr ''B'', PStr ''C'')]"

definition no_edges :: "int graph" where
  "no_edges = undirected [PStr ''A'', PStr ''B'', PStr ''C''] []"

definition two_edges :: "int graph" where
  "two_edges = undirected [PStr ''A'', PStr ''B'', PStr ''C'', PStr ''D'']
     [(PStr ''A'', PStr ''B''), (PStr ''C'', PStr ''D'')]"

text \<open>The single node 1.\<close>

definition single_one :: "int graph" where
  "single_one = undirected [PInt 1] []"


section \<open>Invariants of the object\<close>

text \<open>The first two statements of \<open>_dfs\<close>, as one step.\<close>

definition mark :: "'w graph \<Rightarrow> pynode \<Rightarrow> 'w graph" where
  "mark g node = g\<lparr>visited_nodes := insert node (visited_nodes g),
                    traversal_order := traversal_order g @ [node]\<rparr>"

text \<open>
  Symmetry of the storage: for every entry \<open>{v: w}\<close> in the edge list of u there is an
  entry \<open>{u: w}\<close> in the edge list of v. With it every neighbour is a key of the
  dictionary and has an edge of its own.
\<close>

definition symmetric :: "'w graph \<Rightarrow> bool" where
  "symmetric g = (\<forall>(u, es) \<in> set (nodes g). \<forall>(v, w) \<in> set es. (u, w) \<in> set (edges_of g v))"

text \<open>The storage as the data model has it: every key once, and symmetric.\<close>

definition storage_inv :: "'w graph \<Rightarrow> bool" where
  "storage_inv g = (distinct (map fst (nodes g)) \<and> symmetric g)"

text \<open>
  The transient state between two public calls: nothing is marked or recorded, the queue
  holds nodes of the graph only, and the found flag can be up only if \<open>None\<close> is a node.
\<close>

definition idle :: "'w graph \<Rightarrow> bool" where
  "idle g = (visited_nodes g = {} \<and> traversal_order g = [] \<and>
             (\<forall>n \<in> set (fifo_queue g). is_node g n) \<and> (has_path g \<longrightarrow> is_node g PNone))"

definition graph_inv :: "'w graph \<Rightarrow> bool" where
  "graph_inv g = (storage_inv g \<and> idle g)"

text \<open>The recorded order lists the marked nodes, each once.\<close>

definition recorded :: "'w graph \<Rightarrow> bool" where
  "recorded g = (set (traversal_order g) = visited_nodes g \<and> distinct (traversal_order g))"

text \<open>The public calls, and the object after one of them (a raised error leaves it as it was).\<close>

datatype 'w operation =
    AddNode pynode
  | AddEdge pynode pynode "'w option"
  | FindPath pynode pynode
  | FindShortestPath pynode pynode
  | ConnectedComponents
  | IsCyclic

fun run :: "'w graph \<Rightarrow> 'w operation \<Rightarrow> 'w graph" where
  "run g (AddNode node) = add_node g node"
| "run g (AddEdge from_node to_node weight) = snd (add_edge g from_node to_node weight)"
| "run g (FindPath start_node end_node) = snd (find_path g start_node end_node)"
| "run g (FindShortestPath start_node end_node) = snd (find_shortest_path g start_node end_node)"
| "run g ConnectedComponents = snd (connected_components g)"
| "run g IsCyclic = g"

text \<open>The object after a sequence of public calls on a new graph.\<close>

definition after_calls :: "graph_kind \<Rightarrow> 'w operation list \<Rightarrow> 'w graph" where
  "after_calls k ops = foldl run (init_graph k) ops"

section \<open>The cycle detector as the specification words it\<close>

text \<open>
  The detector of the specification: it \<^emph>\<open>marks \<open>current\<close> visited; for each neighbour:
  if unvisited, recurse with \<open>parent = current\<close>; if that recursion reports a cycle,
  propagate true. If the neighbour is visited and is not the immediate parent, a cycle is
  detected. Returns false if no back-edge is found after exhausting the subtree.\<close> It is
  seeded with no parent, so the parent is optional here.
\<close>

function detectCycle ::
    "'w graph \<Rightarrow> pynode \<Rightarrow> pynode set \<Rightarrow> pynode option \<Rightarrow> bool \<times> pynode set"
  and detectCycle_for ::
    "'w graph \<Rightarrow> 'w edge list \<Rightarrow> pynode \<Rightarrow> pynode set \<Rightarrow> pynode option \<Rightarrow> bool \<times> pynode set" where
  "detectCycle g current visited parent =
     detectCycle_for g (edges_of g current) current (insert current visited) parent"
| "detectCycle_for g [] current visited parent = (False, visited)"
| "detectCycle_for g (edge # rest) current visited parent =
     (if neighbour edge \<notin> visited
      then (case detectCycle g (neighbour edge) visited (Some current) of
              (True, visited') \<Rightarrow> (True, visited')
            | (False, visited') \<Rightarrow> detectCycle_for g rest current visited' parent)
      else if parent \<noteq> Some (neighbour edge) then (True, visited)
      else detectCycle_for g rest current visited parent)"
  by pat_completeness auto

lemma detectCycle_partial:
  shows "detectCycle_detectCycle_for_dom (Inl (g, current, visited, parent)) \<Longrightarrow>
           visited \<subseteq> snd (detectCycle g current visited parent)"
    and "detectCycle_detectCycle_for_dom (Inr (g, es, current, visited, parent)) \<Longrightarrow>
           visited \<subseteq> snd (detectCycle_for g es current visited parent)"
proof (induct g current visited parent and g es current visited parent
       rule: detectCycle_detectCycle_for.pinduct)
  case (1 g current visited parent)
  then show ?case by (auto simp: detectCycle.psimps)
next
  case (2 g current visited parent)
  then show ?case by (simp add: detectCycle_for.psimps)
next
  case (3 g edge rest current visited parent)
  show ?case
  proof (cases "neighbour edge \<in> visited")
    case True
    with 3 show ?thesis by (auto simp: detectCycle_for.psimps)
  next
    case False
    obtain b v' where r: "detectCycle g (neighbour edge) visited (Some current) = (b, v')"
      by (cases "detectCycle g (neighbour edge) visited (Some current)")
    from 3(2)[OF False] r have v: "visited \<subseteq> v'" by simp
    show ?thesis
    proof (cases b)
      case True
      with 3(1) False r v show ?thesis by (simp add: detectCycle_for.psimps)
    next
      case nb: False
      from 3(3)[OF False r[symmetric]] nb
      have "v' \<subseteq> snd (detectCycle_for g rest current v' parent)" by simp
      with 3(1) False r v nb show ?thesis
        by (auto simp: detectCycle_for.psimps)
    qed
  qed
qed

termination detectCycle
proof (relation detect_cycles_rel)
  show "wf (detect_cycles_rel ::
    (('w graph \<times> pynode \<times> pynode set \<times> pynode option) +
     ('w graph \<times> 'w edge list \<times> pynode \<times> pynode set \<times> pynode option)) rel)"
    by (rule wf_detect_cycles_rel)
next
  fix g :: "'w graph" and current visited and parent :: "pynode option"
  show "(Inr (g, edges_of g current, current, insert current visited, parent),
         Inl (g, current, visited, parent)) \<in> detect_cycles_rel"
    by (rule detect_cycles_rel_enter)
next
  fix g :: "'w graph" and edge :: "'w edge" and rest current visited
    and parent :: "pynode option"
  assume "neighbour edge \<notin> visited"
  then show "(Inl (g, neighbour edge, visited, Some current),
              Inr (g, edge # rest, current, visited, parent)) \<in> detect_cycles_rel"
    by (rule detect_cycles_rel_descend)
next
  fix g :: "'w graph" and edge :: "'w edge" and rest current visited x y
    and parent :: "pynode option"
  assume r: "(x, y) = detectCycle g (neighbour edge) visited (Some current)"
    and dom: "detectCycle_detectCycle_for_dom (Inl (g, neighbour edge, visited, Some current))"
  from detectCycle_partial(1)[OF dom] r have "visited \<subseteq> y"
    by (metis snd_conv)
  then show "(Inr (g, rest, current, y, parent),
              Inr (g, edge # rest, current, visited, parent)) \<in> detect_cycles_rel"
    by (rule detect_cycles_rel_next)
next
  fix g :: "'w graph" and edge :: "'w edge" and rest current visited
    and parent :: "pynode option"
  show "(Inr (g, rest, current, visited, parent),
         Inr (g, edge # rest, current, visited, parent)) \<in> detect_cycles_rel"
    by (rule detect_cycles_rel_next) simp
qed



section \<open>Properties of the model\<close>

subsection \<open>The dictionary\<close>

lemma map_of_append_edge:
  "map_of (append_edge ns k e) =
     (map_of ns)(k \<mapsto> (case map_of ns k of None \<Rightarrow> [] | Some es \<Rightarrow> es) @ [e])"
  by (induction ns k e rule: append_edge.induct) (auto simp: fun_eq_iff)

lemma keys_append_edge:
  "map fst (append_edge ns k e) =
     (if k \<in> fst ` set ns then map fst ns else map fst ns @ [k])"
  by (induction ns k e rule: append_edge.induct) auto

lemma distinct_append_edge:
  "distinct (map fst ns) \<Longrightarrow> distinct (map fst (append_edge ns k e))"
  by (simp add: keys_append_edge)

lemma is_node_keys: "is_node g n \<longleftrightarrow> n \<in> fst ` set (nodes g)"
  by (simp add: is_node_def map_of_eq_None_iff)

lemma edges_of_nonempty_is_node: "edges_of g n \<noteq> [] \<Longrightarrow> is_node g n"
  by (auto simp: edges_of_def is_node_def split: option.splits)

lemma edges_of_entry:
  "distinct (map fst (nodes g)) \<Longrightarrow> (u, es) \<in> set (nodes g) \<Longrightarrow> edges_of g u = es"
  by (simp add: edges_of_def)

lemma entry_edges_of:
  "e \<in> set (edges_of g u) \<Longrightarrow> (u, edges_of g u) \<in> set (nodes g)"
  by (cases "map_of (nodes g) u") (auto simp: edges_of_def dest: map_of_SomeD)

text \<open>Symmetry, read through \<open>edges_of\<close>.\<close>

lemma symmetric_iff:
  assumes "distinct (map fst (nodes g))"
  shows "symmetric g \<longleftrightarrow>
         (\<forall>u v w. (v, w) \<in> set (edges_of g u) \<longrightarrow> (u, w) \<in> set (edges_of g v))"
proof
  assume s: "symmetric g"
  show "\<forall>u v w. (v, w) \<in> set (edges_of g u) \<longrightarrow> (u, w) \<in> set (edges_of g v)"
  proof (intro allI impI)
    fix u v w assume e: "(v, w) \<in> set (edges_of g u)"
    then have "(u, edges_of g u) \<in> set (nodes g)" by (rule entry_edges_of)
    with s e show "(u, w) \<in> set (edges_of g v)" by (fastforce simp: symmetric_def)
  qed
next
  assume r: "\<forall>u v w. (v, w) \<in> set (edges_of g u) \<longrightarrow> (u, w) \<in> set (edges_of g v)"
  show "symmetric g"
    unfolding symmetric_def
  proof (intro ballI, clarify)
    fix u es v w assume "(u, es) \<in> set (nodes g)" "(v, w) \<in> set es"
    with assms have "(v, w) \<in> set (edges_of g u)" by (simp add: edges_of_entry)
    with r show "(u, w) \<in> set (edges_of g v)" by blast
  qed
qed

lemma edges_of_append_edge:
  "edges_of (g\<lparr>nodes := append_edge (nodes g) k e\<rparr>) n =
     (if n = k then edges_of g k @ [e] else edges_of g n)"
  by (simp add: edges_of_def map_of_append_edge)

lemma graph_nodes_symmetric:
  assumes "storage_inv g" "n \<in> graph_nodes g"
  shows "edges_of g n \<noteq> []"
proof -
  from assms(2) obtain u es e where u: "(u, es) \<in> set (nodes g)" "e \<in> set es" "n = neighbour e"
    by (auto simp: graph_nodes_def)
  with assms(1) have "(u, snd e) \<in> set (edges_of g n)"
    by (cases e) (fastforce simp: storage_inv_def symmetric_def neighbour_def)
  then show ?thesis by auto
qed

subsection \<open>\<open>_validate_nodes\<close>\<close>

text \<open>
  The error is raised exactly when the start node is missing, or the end node is missing
  and truthy; it names the start node if that is missing, else the end node; and the
  callers raise it with the object untouched.
\<close>

lemma validate_nodes_error_iff:
  "(\<exists>e. validate_nodes g a b = Inl e) \<longleftrightarrow> \<not> is_node g a \<or> (\<not> is_node g b \<and> truthy b)"
  by (simp add: validate_nodes_def)

lemma validate_nodes_error_node:
  "validate_nodes g a b = Inl (ValueError n) \<Longrightarrow> n = (if \<not> is_node g a then a else b)"
  by (simp add: validate_nodes_def split: if_splits)

lemma find_path_error:
  "validate_nodes g a b = Inl e \<Longrightarrow> find_path g a b = (Inl e, g)"
  by (simp add: find_path_def)

lemma find_shortest_path_error:
  "validate_nodes g a b = Inl e \<Longrightarrow> find_shortest_path g a b = (Inl e, g)"
  by (simp add: find_shortest_path_def)

lemma add_edge_UndirectedGraph_raises:
  "validate_nodes g a b = Inl e \<Longrightarrow> add_edge_UndirectedGraph g a b w = (Inl e, g)"
  by (simp add: add_edge_UndirectedGraph_def)

subsection \<open>\<open>add_node\<close> and \<open>add_edge\<close>\<close>

lemma edges_of_add_node: "edges_of (add_node g n) m = edges_of g m"
proof (cases "is_node g n")
  case True
  then show ?thesis by (simp add: add_node_def)
next
  case False
  then have "map_of (nodes g) n = None" by (simp add: is_node_def)
  then have "map_of (nodes g @ [(n, [])]) m = (if m = n then Some [] else map_of (nodes g) m)"
    by (cases "map_of (nodes g) m") (auto simp: map_add_def)
  with False \<open>map_of (nodes g) n = None\<close> show ?thesis
    by (simp add: add_node_def edges_of_def)
qed

lemma storage_inv_add_node: "storage_inv g \<Longrightarrow> storage_inv (add_node g n)"
proof -
  assume inv: "storage_inv g"
  then have d: "distinct (map fst (nodes (add_node g n)))"
    by (auto simp: storage_inv_def add_node_def is_node_keys)
  from inv have "\<forall>u v w. (v, w) \<in> set (edges_of g u) \<longrightarrow> (u, w) \<in> set (edges_of g v)"
    using symmetric_iff[of g] by (simp add: storage_inv_def)
  then have "\<forall>u v w. (v, w) \<in> set (edges_of (add_node g n) u)
               \<longrightarrow> (u, w) \<in> set (edges_of (add_node g n) v)"
    by (simp add: edges_of_add_node)
  with d show ?thesis using symmetric_iff[of "add_node g n"] by (simp add: storage_inv_def)
qed

lemma add_edge_UndirectedGraph_ok:
  assumes "add_edge_UndirectedGraph g u v w = (Inr (), g')"
  shows "g' = g\<lparr>nodes := append_edge (append_edge (nodes g) u (v, w)) v (u, w)\<rparr>"
  using assms by (auto simp: add_edge_UndirectedGraph_def Let_def split: sum.splits)

lemma add_edge_UndirectedGraph_error:
  assumes "add_edge_UndirectedGraph g u v w = (Inl e, g')"
  shows "g' = g"
  using assms by (auto simp: add_edge_UndirectedGraph_def Let_def split: sum.splits)

lemma edges_of_add_edge:
  assumes "add_edge_UndirectedGraph g u v w = (Inr (), g')"
  shows "edges_of g' n =
     (if n = v then (if u = v then edges_of g u @ [(v, w)] else edges_of g v) @ [(u, w)]
      else if n = u then edges_of g u @ [(v, w)] else edges_of g n)"
  unfolding add_edge_UndirectedGraph_ok[OF assms]
  by (simp add: edges_of_def map_of_append_edge)

lemma storage_inv_add_edge_UndirectedGraph:
  assumes "storage_inv g"
  shows "storage_inv (snd (add_edge_UndirectedGraph g u v w))"
proof (cases "add_edge_UndirectedGraph g u v w")
  case (Pair r g')
  show ?thesis
  proof (cases r)
    case (Inl e)
    with Pair assms show ?thesis
      using add_edge_UndirectedGraph_error[of g u v w e g'] by simp
  next
    case (Inr x)
    with Pair have ok: "add_edge_UndirectedGraph g u v w = (Inr (), g')" by simp
    have d: "distinct (map fst (nodes g'))"
      using assms unfolding add_edge_UndirectedGraph_ok[OF ok]
      by (simp add: storage_inv_def distinct_append_edge)
    from assms have s: "\<And>a b c. (b, c) \<in> set (edges_of g a) \<Longrightarrow> (a, c) \<in> set (edges_of g b)"
      using symmetric_iff[of g] by (simp add: storage_inv_def)
    have "\<forall>a b c. (b, c) \<in> set (edges_of g' a) \<longrightarrow> (a, c) \<in> set (edges_of g' b)"
      by (auto simp: edges_of_add_edge[OF ok] dest: s split: if_splits)
    with d Pair show ?thesis using symmetric_iff[of g'] by (simp add: storage_inv_def)
  qed
qed

subsection \<open>Depth-first search\<close>

lemma mark_simps [simp]:
  "nodes (mark g n) = nodes g" "kind (mark g n) = kind g" "fifo_queue (mark g n) = fifo_queue g"
  "has_path (mark g n) = has_path g" "visited_nodes (mark g n) = insert n (visited_nodes g)"
  "traversal_order (mark g n) = traversal_order g @ [n]"
  "edges_of (mark g n) m = edges_of g m" "graph_nodes (mark g n) = graph_nodes g"
  by (simp_all add: mark_def edges_of_def graph_nodes_def)

lemma dfs_found: "dfs g e e = (mark g e)\<lparr>has_path := True\<rparr>"
  by (simp add: mark_def)

lemma dfs_step: "node \<noteq> e \<Longrightarrow> dfs g node e = dfs_for (mark g node) (edges_of g node) e"
  by (simp add: mark_def edges_of_def)

declare dfs.simps [simp del]

lemma dfs_frame:
  shows "nodes (dfs g node e) = nodes g \<and> kind (dfs g node e) = kind g \<and>
         fifo_queue (dfs g node e) = fifo_queue g"
    and "nodes (dfs_for g es e) = nodes g \<and> kind (dfs_for g es e) = kind g \<and>
         fifo_queue (dfs_for g es e) = fifo_queue g"
proof (induct g node e and g es e rule: dfs_dfs_for.induct)
  case (1 g node end_node)
  show ?case
  proof (cases "node = end_node")
    case True
    then show ?thesis by (simp add: dfs_found)
  next
    case False
    with 1[OF refl False] show ?thesis
      by (simp add: dfs_step mark_def edges_of_def)
  qed
next
  case (2 g end_node)
  show ?case by simp
next
  case (3 g edge rest end_node)
  then show ?case by (cases "neighbour edge \<in> visited_nodes g") auto
qed

lemma dfs_edges_of: "edges_of (dfs g node e) n = edges_of g n"
  by (simp add: edges_of_def dfs_frame)

lemma dfs_graph_nodes: "graph_nodes (dfs g node e) = graph_nodes g"
  by (simp add: graph_nodes_def dfs_frame)

lemma dfs_visited_mono:
  shows "insert node (visited_nodes g) \<subseteq> visited_nodes (dfs g node e)"
    and "visited_nodes g \<subseteq> visited_nodes (dfs_for g es e)"
proof (induct g node e and g es e rule: dfs_dfs_for.induct)
  case (1 g node end_node)
  show ?case
  proof (cases "node = end_node")
    case True
    then show ?thesis by (simp add: dfs_found)
  next
    case False
    with 1[OF refl False] show ?thesis
      by (simp add: dfs_step mark_def edges_of_def)
  qed
next
  case (2 g end_node)
  show ?case by simp
next
  case (3 g edge rest end_node)
  show ?case
  proof (cases "neighbour edge \<in> visited_nodes g")
    case True
    with 3(3) show ?thesis by simp
  next
    case False
    with 3(1,2) show ?thesis by auto
  qed
qed

lemma dfs_visited_upper:
  shows "visited_nodes (dfs g node e) \<subseteq> insert node (visited_nodes g) \<union> graph_nodes g"
    and "visited_nodes (dfs_for g es e) \<subseteq> visited_nodes g \<union> neighbour ` set es \<union> graph_nodes g"
proof (induct g node e and g es e rule: dfs_dfs_for.induct)
  case (1 g node end_node)
  show ?case
  proof (cases "node = end_node")
    case True
    then show ?thesis by (auto simp: dfs_found)
  next
    case False
    have nb: "neighbour ` set (edges_of g node) \<subseteq> graph_nodes g"
      by (rule edges_of_graph_nodes)
    have "visited_nodes (dfs_for (mark g node) (edges_of g node) end_node)
            \<subseteq> visited_nodes (mark g node) \<union> neighbour ` set (edges_of g node)
                \<union> graph_nodes (mark g node)"
      using 1[OF refl False] by (simp add: mark_def edges_of_def graph_nodes_def)
    with nb have "visited_nodes (dfs_for (mark g node) (edges_of g node) end_node)
            \<subseteq> insert node (visited_nodes g) \<union> graph_nodes g"
      by (simp add: subset_iff) blast
    with False show ?thesis by (simp add: dfs_step)
  qed
next
  case (2 g end_node)
  show ?case by simp
next
  case (3 g edge rest end_node)
  show ?case
  proof (cases "neighbour edge \<in> visited_nodes g")
    case True
    with 3(3) show ?thesis by auto
  next
    case False
    with 3(1,2) show ?thesis by (auto simp: dfs_graph_nodes)
  qed
qed

lemma dfs_has_path:
  shows "has_path (dfs g node e) \<Longrightarrow> has_path g \<or> e = node \<or> e \<in> graph_nodes g"
    and "has_path (dfs_for g es e) \<Longrightarrow> has_path g \<or> e \<in> neighbour ` set es \<or> e \<in> graph_nodes g"
proof (induct g node e and g es e rule: dfs_dfs_for.induct)
  case (1 g node end_node)
  show ?case
  proof (cases "node = end_node")
    case True
    then show ?thesis by simp
  next
    case False
    have nb: "neighbour ` set (edges_of g node) \<subseteq> graph_nodes g"
      by (rule edges_of_graph_nodes)
    from "1.prems" False have "has_path (dfs_for (mark g node) (edges_of g node) end_node)"
      by (simp add: dfs_step)
    then have "has_path (mark g node) \<or> end_node \<in> neighbour ` set (edges_of g node)
                 \<or> end_node \<in> graph_nodes (mark g node)"
      using 1(1)[OF refl False] by (simp add: mark_def edges_of_def graph_nodes_def)
    with nb show ?thesis by auto
  qed
next
  case (2 g end_node)
  then show ?case by simp
next
  case (3 g edge rest end_node)
  show ?case
  proof (cases "neighbour edge \<in> visited_nodes g")
    case True
    with 3(3) "3.prems" show ?thesis by auto
  next
    case False
    with "3.prems" have "has_path (dfs_for (dfs g (neighbour edge) end_node) rest end_node)"
      by simp
    from 3(2)[OF False this] 3(1)[OF False] show ?thesis
      by (auto simp: dfs_graph_nodes)
  qed
qed

subsection \<open>Breadth-first search\<close>

declare bfs_while.simps [simp del]

lemma bfs_while_empty: "fifo_queue g = [] \<Longrightarrow> bfs_while g e = g"
  by (simp add: bfs_while.simps[of g])

lemma bfs_while_found: "fifo_queue g = e # q \<Longrightarrow> bfs_while g e = g\<lparr>fifo_queue := q, has_path := True\<rparr>"
  by (simp add: bfs_while.simps[of g])

lemma bfs_while_step:
  "fifo_queue g = c # q \<Longrightarrow> c \<noteq> e \<Longrightarrow>
   bfs_while g e = bfs_while (bfs_for (g\<lparr>fifo_queue := q\<rparr>) (edges_of g c)) e"
  by (simp add: bfs_while.simps[of g] Let_def edges_of_def)

lemma bfs_for_frame:
  "kind (bfs_for g es) = kind g \<and> has_path (bfs_for g es) = has_path g"
  by (induction es arbitrary: g) auto

lemma bfs_for_queue:
  "set (fifo_queue (bfs_for g es)) \<subseteq> set (fifo_queue g) \<union> neighbour ` set es"
proof (induction es arbitrary: g)
  case Nil
  show ?case by simp
next
  case (Cons e es)
  show ?case
    using Cons.IH[of g]
      Cons.IH[of "g\<lparr>fifo_queue := enqueue (fifo_queue g) (neighbour e),
                      visited_nodes := insert (neighbour e) (visited_nodes g),
                      traversal_order := traversal_order g @ [neighbour e]\<rparr>"]
    by (auto simp: enqueue_def)
qed

lemma bfs_while_frame:
  "nodes (bfs_while g e) = nodes g \<and> kind (bfs_while g e) = kind g"
proof (induct g e rule: bfs_while.induct)
  case (1 g end_node)
  show ?case
  proof (cases "fifo_queue g")
    case Nil
    then show ?thesis by (simp add: bfs_while_empty bfs_while_found bfs_while_step Let_def edges_of_def)
  next
    case (Cons c q)
    show ?thesis
    proof (cases "c = end_node")
      case True
      with Cons show ?thesis by (simp add: bfs_while_empty bfs_while_found bfs_while_step Let_def edges_of_def)
    next
      case False
      with Cons 1[OF Cons refl False] show ?thesis
        by (simp add: bfs_while_empty bfs_while_found bfs_while_step Let_def edges_of_def bfs_for_nodes bfs_for_frame)
    qed
  qed
qed

lemma bfs_while_has_path:
  "has_path (bfs_while g e) \<Longrightarrow> has_path g \<or> e \<in> set (fifo_queue g) \<or> e \<in> graph_nodes g"
proof (induct g e rule: bfs_while.induct)
  case (1 g end_node)
  show ?case
  proof (cases "fifo_queue g")
    case Nil
    with "1.prems" show ?thesis by (simp add: bfs_while_empty bfs_while_found bfs_while_step Let_def edges_of_def)
  next
    case (Cons c q)
    show ?thesis
    proof (cases "c = end_node")
      case True
      with Cons show ?thesis by simp
    next
      case False
      let ?g1 = "g\<lparr>fifo_queue := q\<rparr>"
      let ?g' = "bfs_for ?g1 (edges_of ?g1 c)"
      from "1.prems" Cons False have "has_path (bfs_while ?g' end_node)"
        by (simp add: bfs_while_empty bfs_while_found bfs_while_step Let_def edges_of_def)
      from 1(1)[OF Cons refl False this]
      have "has_path ?g' \<or> end_node \<in> set (fifo_queue ?g') \<or> end_node \<in> graph_nodes ?g'" .
      moreover have "graph_nodes ?g' = graph_nodes g"
        by (simp add: graph_nodes_def bfs_for_nodes)
      moreover have "has_path ?g' = has_path g" by (simp add: bfs_for_frame)
      moreover have "set (fifo_queue ?g') \<subseteq> set q \<union> graph_nodes g"
        using bfs_for_queue[of ?g1 "edges_of ?g1 c"] edges_of_graph_nodes[of ?g1 c]
        by (auto simp: graph_nodes_def)
      ultimately show ?thesis using Cons by auto
    qed
  qed
qed

lemma bfs_while_queue:
  "set (fifo_queue (bfs_while g e)) \<subseteq> set (fifo_queue g) \<union> graph_nodes g"
proof (induct g e rule: bfs_while.induct)
  case (1 g end_node)
  show ?case
  proof (cases "fifo_queue g")
    case Nil
    then show ?thesis by (simp add: bfs_while_empty bfs_while_found bfs_while_step Let_def edges_of_def)
  next
    case (Cons c q)
    show ?thesis
    proof (cases "c = end_node")
      case True
      with Cons show ?thesis by (auto simp: bfs_while_empty bfs_while_found bfs_while_step Let_def edges_of_def)
    next
      case False
      let ?g1 = "g\<lparr>fifo_queue := q\<rparr>"
      let ?g' = "bfs_for ?g1 (edges_of ?g1 c)"
      have eq: "bfs_while g end_node = bfs_while ?g' end_node"
        using Cons False by (simp add: bfs_while_empty bfs_while_found bfs_while_step Let_def edges_of_def)
      have "graph_nodes ?g' = graph_nodes g"
        by (simp add: graph_nodes_def bfs_for_nodes)
      moreover have "set (fifo_queue ?g') \<subseteq> set q \<union> graph_nodes g"
        using bfs_for_queue[of ?g1 "edges_of ?g1 c"] edges_of_graph_nodes[of ?g1 c]
        by (auto simp: graph_nodes_def)
      ultimately show ?thesis using 1(1)[OF Cons refl False] Cons eq by auto
    qed
  qed
qed

subsection \<open>The invariant holds after every public call\<close>

lemma graph_nodes_is_node:
  assumes "storage_inv g" "n \<in> graph_nodes g"
  shows "is_node g n"
  using graph_nodes_symmetric[OF assms] by (rule edges_of_nonempty_is_node)

lemma is_node_cong: "nodes g' = nodes g \<Longrightarrow> is_node g' n = is_node g n"
  by (simp add: is_node_def)

lemma storage_inv_cong: "nodes g' = nodes g \<Longrightarrow> storage_inv g' = storage_inv g"
  by (simp add: storage_inv_def symmetric_def edges_of_def)

lemma is_node_add_node: "is_node g m \<Longrightarrow> is_node (add_node g n) m"
  by (auto simp: add_node_def is_node_keys)

lemma graph_inv_init: "graph_inv (init_graph k)"
  by (simp add: graph_inv_def storage_inv_def symmetric_def idle_def init_graph_def)

lemma graph_inv_add_node:
  assumes "graph_inv g"
  shows "graph_inv (add_node g n)"
proof -
  have "idle (add_node g n)"
    using assms is_node_add_node[of g _ n]
    by (auto simp: graph_inv_def idle_def add_node_def)
  with assms show ?thesis by (simp add: graph_inv_def storage_inv_add_node)
qed

lemma is_node_add_edge_UndirectedGraph:
  assumes "is_node g m"
  shows "is_node (snd (add_edge_UndirectedGraph g u v w)) m"
  using assms
  by (auto simp: add_edge_UndirectedGraph_def Let_def is_node_def map_of_append_edge
      split: sum.splits)

lemma transient_add_edge_UndirectedGraph:
  "visited_nodes (snd (add_edge_UndirectedGraph g u v w)) = visited_nodes g \<and>
   traversal_order (snd (add_edge_UndirectedGraph g u v w)) = traversal_order g \<and>
   fifo_queue (snd (add_edge_UndirectedGraph g u v w)) = fifo_queue g \<and>
   has_path (snd (add_edge_UndirectedGraph g u v w)) = has_path g"
  by (auto simp: add_edge_UndirectedGraph_def Let_def split: sum.splits)

lemma graph_inv_add_edge:
  assumes "graph_inv g"
  shows "graph_inv (snd (add_edge g u v w))"
proof (cases "kind g")
  case BaseGraph
  with assms show ?thesis by (simp add: add_edge_def add_edge_BaseGraph_def)
next
  case UndirectedGraph
  have "idle (snd (add_edge_UndirectedGraph g u v w))"
    using assms is_node_add_edge_UndirectedGraph[of g _ u v w]
    by (auto simp: graph_inv_def idle_def transient_add_edge_UndirectedGraph)
  with assms UndirectedGraph show ?thesis
    by (simp add: add_edge_def graph_inv_def storage_inv_add_edge_UndirectedGraph)
qed

lemma find_path_state:
  "nodes (snd (find_path g a b)) = nodes g \<and>
   fifo_queue (snd (find_path g a b)) = fifo_queue g \<and>
   (validate_nodes g a b = Inr () \<longrightarrow>
      visited_nodes (snd (find_path g a b)) = {} \<and>
      traversal_order (snd (find_path g a b)) = [] \<and>
      \<not> has_path (snd (find_path g a b)))"
  by (auto simp: find_path_def Let_def dfs_frame split: sum.splits)

lemma graph_inv_find_path:
  assumes "graph_inv g"
  shows "graph_inv (snd (find_path g a b))"
proof (cases "validate_nodes g a b")
  case (Inl e)
  with assms show ?thesis by (simp add: find_path_def)
next
  case (Inr x)
  then have v: "validate_nodes g a b = Inr ()" by simp
  have n: "nodes (snd (find_path g a b)) = nodes g" by (simp add: find_path_state)
  have "idle (snd (find_path g a b))"
    using assms find_path_state[of g a b] v
    by (auto simp: graph_inv_def idle_def is_node_cong[OF n])
  with assms show ?thesis by (simp add: graph_inv_def storage_inv_cong[OF n])
qed

text \<open>The two guarded \<open>clear()\<close> calls amount to clearing.\<close>

lemma bfs_eq:
  "bfs g a b = bfs_while (g\<lparr>fifo_queue := enqueue (fifo_queue g) a,
                            visited_nodes := {a}, traversal_order := [a]\<rparr>) b"
proof -
  have "(if visited_nodes g \<noteq> {} then g\<lparr>visited_nodes := {}\<rparr> else g) = g\<lparr>visited_nodes := {}\<rparr>"
    by simp
  moreover have "(if traversal_order (g\<lparr>visited_nodes := {}\<rparr>) \<noteq> []
                  then g\<lparr>visited_nodes := {}, traversal_order := []\<rparr>
                  else g\<lparr>visited_nodes := {}\<rparr>) = g\<lparr>visited_nodes := {}, traversal_order := []\<rparr>"
    by simp
  ultimately show ?thesis by (simp add: bfs_def Let_def)
qed

lemma bfs_frame: "nodes (bfs g a b) = nodes g \<and> kind (bfs g a b) = kind g"
  by (simp add: bfs_eq bfs_while_frame)

lemma bfs_queue:
  "set (fifo_queue (bfs g a b)) \<subseteq> set (fifo_queue g) \<union> {a} \<union> graph_nodes g"
  using bfs_while_queue[of "g\<lparr>fifo_queue := enqueue (fifo_queue g) a,
                            visited_nodes := {a}, traversal_order := [a]\<rparr>" b]
  by (auto simp: bfs_eq enqueue_def graph_nodes_def)

lemma bfs_has_path:
  assumes "has_path (bfs g a b)"
  shows "has_path g \<or> b \<in> set (fifo_queue g) \<or> b = a \<or> b \<in> graph_nodes g"
  using bfs_while_has_path[of "g\<lparr>fifo_queue := enqueue (fifo_queue g) a,
                            visited_nodes := {a}, traversal_order := [a]\<rparr>" b] assms
  by (auto simp: bfs_eq enqueue_def graph_nodes_def)

lemma find_shortest_path_state:
  "nodes (snd (find_shortest_path g a b)) = nodes g \<and>
   (validate_nodes g a b = Inr () \<longrightarrow>
      fifo_queue (snd (find_shortest_path g a b)) = fifo_queue (bfs g a b) \<and>
      visited_nodes (snd (find_shortest_path g a b)) = {} \<and>
      traversal_order (snd (find_shortest_path g a b)) = [] \<and>
      \<not> has_path (snd (find_shortest_path g a b)))"
  by (auto simp: find_shortest_path_def Let_def bfs_frame split: sum.splits)

lemma validate_nodes_ok: "validate_nodes g a b = Inr () \<Longrightarrow> is_node g a"
  by (auto simp: validate_nodes_def split: if_splits)

lemma graph_inv_find_shortest_path:
  assumes "graph_inv g"
  shows "graph_inv (snd (find_shortest_path g a b))"
proof (cases "validate_nodes g a b")
  case (Inl e)
  with assms show ?thesis by (simp add: find_shortest_path_def)
next
  case (Inr x)
  then have v: "validate_nodes g a b = Inr ()" by simp
  have n: "nodes (snd (find_shortest_path g a b)) = nodes g"
    by (simp add: find_shortest_path_state)
  have "\<forall>m \<in> set (fifo_queue (bfs g a b)). is_node g m"
    using bfs_queue[of g a b] assms validate_nodes_ok[OF v] graph_nodes_is_node[of g]
    by (auto simp: graph_inv_def idle_def)
  then have "idle (snd (find_shortest_path g a b))"
    using find_shortest_path_state[of g a b] v
    by (auto simp: idle_def is_node_cong[OF n])
  with assms show ?thesis by (simp add: graph_inv_def storage_inv_cong[OF n])
qed

lemma connected_components_for_frame:
  "nodes (connected_components_for g ks) = nodes g \<and>
   fifo_queue (connected_components_for g ks) = fifo_queue g"
  by (induction ks arbitrary: g) (auto simp: dfs_frame)

lemma connected_components_for_has_path:
  "has_path (connected_components_for g ks) \<Longrightarrow>
   has_path g \<or> PNone \<in> set ks \<or> PNone \<in> graph_nodes g"
proof (induction ks arbitrary: g)
  case Nil
  then show ?case by simp
next
  case (Cons k ks)
  show ?case
  proof (cases "has_traversable_neighbours (edges_of g k) \<and> k \<notin> visited_nodes g")
    case True
    with Cons.prems have "has_path (connected_components_for (dfs g k PNone) ks)" by simp
    from Cons.IH[OF this] dfs_has_path(1)[of g k PNone] show ?thesis
      by (auto simp: dfs_graph_nodes)
  next
    case False
    with Cons.prems have "has_path (connected_components_for g ks)" by auto
    from Cons.IH[OF this] show ?thesis by auto
  qed
qed

lemma graph_inv_connected_components:
  assumes "graph_inv g"
  shows "graph_inv (snd (connected_components g))"
proof -
  let ?g1 = "connected_components_for g (map fst (nodes g))"
  have n: "nodes (snd (connected_components g)) = nodes g"
    by (simp add: connected_components_def Let_def connected_components_for_frame)
  have "has_path ?g1 \<longrightarrow> is_node g PNone"
    using connected_components_for_has_path[of g "map fst (nodes g)"] assms
      graph_nodes_is_node[of g PNone]
    by (auto simp: graph_inv_def idle_def is_node_keys)
  then have "idle (snd (connected_components g))"
    using assms
    by (auto simp: connected_components_def Let_def idle_def graph_inv_def
        connected_components_for_frame is_node_def)
  with assms show ?thesis by (simp add: graph_inv_def storage_inv_cong[OF n])
qed

lemma graph_inv_run: "graph_inv g \<Longrightarrow> graph_inv (run g op)"
  by (cases op)
    (simp_all add: graph_inv_add_node graph_inv_add_edge graph_inv_find_path
      graph_inv_find_shortest_path graph_inv_connected_components)

lemma graph_inv_foldl: "graph_inv g \<Longrightarrow> graph_inv (foldl run g ops)"
  by (induction ops arbitrary: g) (simp_all add: graph_inv_run)

lemma graph_inv_after_calls: "graph_inv (after_calls k ops)"
  by (simp add: after_calls_def graph_inv_foldl graph_inv_init)

subsection \<open>\<open>connected_components\<close>\<close>

lemma has_traversable_neighbours_iff: "has_traversable_neighbours es \<longleftrightarrow> es \<noteq> []"
  by (simp add: has_traversable_neighbours_def)

lemma connected_components_for_edges_of:
  "edges_of (connected_components_for g ks) n = edges_of g n"
  by (simp add: edges_of_def connected_components_for_frame)

lemma connected_components_for_mono:
  "visited_nodes g \<subseteq> visited_nodes (connected_components_for g ks)"
proof (induction ks arbitrary: g)
  case Nil
  show ?case by simp
next
  case (Cons k ks)
  show ?case
    using Cons.IH[of g] Cons.IH[of "dfs g k PNone"] dfs_visited_mono(1)[of k g PNone]
    by auto
qed

lemma connected_components_for_lower:
  "k \<in> set ks \<Longrightarrow> edges_of g k \<noteq> [] \<Longrightarrow> k \<in> visited_nodes (connected_components_for g ks)"
proof (induction ks arbitrary: g)
  case Nil
  then show ?case by simp
next
  case (Cons a ks)
  show ?case
  proof (cases "has_traversable_neighbours (edges_of g a) \<and> a \<notin> visited_nodes g")
    case True
    show ?thesis
    proof (cases "k = a")
      case True
      have "a \<in> visited_nodes (dfs g a PNone)" using dfs_visited_mono(1)[of a g PNone] by simp
      with connected_components_for_mono[of "dfs g a PNone" ks]
      have "a \<in> visited_nodes (connected_components_for (dfs g a PNone) ks)" by blast
      with \<open>k = a\<close> \<open>has_traversable_neighbours (edges_of g a) \<and> a \<notin> visited_nodes g\<close>
      show ?thesis by simp
    next
      case False
      with Cons.prems have "k \<in> set ks" by simp
      moreover from Cons.prems have "edges_of (dfs g a PNone) k \<noteq> []" by (simp add: dfs_edges_of)
      ultimately have "k \<in> visited_nodes (connected_components_for (dfs g a PNone) ks)"
        by (rule Cons.IH)
      with True show ?thesis by simp
    qed
  next
    case False
    show ?thesis
    proof (cases "k = a")
      case True
      with False Cons.prems have "a \<in> visited_nodes g"
        by (simp add: has_traversable_neighbours_iff)
      with connected_components_for_mono[of g ks] True False show ?thesis by auto
    next
      case kn: False
      with Cons.prems have "k \<in> set ks" by simp
      then have "k \<in> visited_nodes (connected_components_for g ks)"
        using Cons.prems(2) by (rule Cons.IH)
      with False show ?thesis by auto
    qed
  qed
qed

lemma connected_components_for_upper:
  "visited_nodes (connected_components_for g ks)
     \<subseteq> visited_nodes g \<union> {k \<in> set ks. edges_of g k \<noteq> []} \<union> graph_nodes g"
proof (induction ks arbitrary: g)
  case Nil
  show ?case by simp
next
  case (Cons a ks)
  show ?case
  proof (cases "has_traversable_neighbours (edges_of g a) \<and> a \<notin> visited_nodes g")
    case True
    have "visited_nodes (connected_components_for (dfs g a PNone) ks)
            \<subseteq> visited_nodes (dfs g a PNone) \<union> {k \<in> set ks. edges_of g k \<noteq> []} \<union> graph_nodes g"
      using Cons.IH[of "dfs g a PNone"] by (simp add: dfs_edges_of dfs_graph_nodes)
    moreover have "visited_nodes (dfs g a PNone) \<subseteq> insert a (visited_nodes g) \<union> graph_nodes g"
      by (rule dfs_visited_upper)
    moreover from True have "edges_of g a \<noteq> []" by (simp add: has_traversable_neighbours_iff)
    ultimately show ?thesis using True by auto
  next
    case False
    with Cons.IH[of g] show ?thesis by auto
  qed
qed

subsection \<open>The storage under the public calls\<close>

lemma connected_components_nodes: "nodes (snd (connected_components g)) = nodes g"
  by (simp add: connected_components_def Let_def connected_components_for_frame)

lemma storage_inv_run: "storage_inv g \<Longrightarrow> storage_inv (run g op)"
proof (cases op)
  case (AddNode m)
  assume "storage_inv g"
  with AddNode show ?thesis by (simp add: storage_inv_add_node)
next
  case (AddEdge u v w)
  assume "storage_inv g"
  with AddEdge show ?thesis
    by (cases "kind g")
      (simp_all add: add_edge_def add_edge_BaseGraph_def storage_inv_add_edge_UndirectedGraph)
next
  case (FindPath a b)
  assume "storage_inv g"
  with FindPath show ?thesis
    using storage_inv_cong[of "snd (find_path g a b)" g] by (simp add: find_path_state)
next
  case (FindShortestPath a b)
  assume "storage_inv g"
  with FindShortestPath show ?thesis
    using storage_inv_cong[of "snd (find_shortest_path g a b)" g]
    by (simp add: find_shortest_path_state)
next
  case ConnectedComponents
  assume "storage_inv g"
  with ConnectedComponents show ?thesis
    using storage_inv_cong[of "snd (connected_components g)" g]
    by (simp add: connected_components_nodes)
next
  case IsCyclic
  assume "storage_inv g"
  with IsCyclic show ?thesis by simp
qed

lemma edges_of_run: "\<exists>ys. edges_of (run g op) n = edges_of g n @ ys"
proof (cases op)
  case (AddNode m)
  then show ?thesis by (simp add: edges_of_add_node)
next
  case (AddEdge u v w)
  show ?thesis
  proof (cases "kind g")
    case BaseGraph
    with AddEdge show ?thesis by (simp add: add_edge_def add_edge_BaseGraph_def)
  next
    case UndirectedGraph
    obtain r g' where r: "add_edge_UndirectedGraph g u v w = (r, g')"
      by (cases "add_edge_UndirectedGraph g u v w")
    show ?thesis
    proof (cases r)
      case (Inl e)
      with r have "g' = g" using add_edge_UndirectedGraph_error[of g u v w e g'] by simp
      with r AddEdge UndirectedGraph show ?thesis by (simp add: add_edge_def)
    next
      case (Inr x)
      with r have ok: "add_edge_UndirectedGraph g u v w = (Inr (), g')" by simp
      have "\<exists>ys. edges_of g' n = edges_of g n @ ys"
        by (simp add: edges_of_add_edge[OF ok])
      with r AddEdge UndirectedGraph show ?thesis by (simp add: add_edge_def)
    qed
  qed
next
  case (FindPath a b)
  then show ?thesis
    using edges_of_cong[of "snd (find_path g a b)" g n] by (simp add: find_path_state)
next
  case (FindShortestPath a b)
  then show ?thesis
    using edges_of_cong[of "snd (find_shortest_path g a b)" g n]
    by (simp add: find_shortest_path_state)
next
  case ConnectedComponents
  then show ?thesis
    using edges_of_cong[of "snd (connected_components g)" g n]
    by (simp add: connected_components_nodes)
next
  case IsCyclic
  then show ?thesis by simp
qed

subsection \<open>The detector of the code against the detector of the specification\<close>




subsection \<open>What the two searches record\<close>

lemma recorded_mark: "recorded g \<Longrightarrow> n \<notin> visited_nodes g \<Longrightarrow> recorded (mark g n)"
  by (auto simp: recorded_def)

lemma dfs_recorded:
  shows "recorded g \<Longrightarrow> node \<notin> visited_nodes g \<Longrightarrow> recorded (dfs g node e)"
    and "recorded g \<Longrightarrow> recorded (dfs_for g es e)"
proof (induct g node e and g es e rule: dfs_dfs_for.induct)
  case (1 g node end_node)
  show ?case
  proof (cases "node = end_node")
    case True
    with "1.prems" show ?thesis by (auto simp: dfs_found recorded_def)
  next
    case False
    have "recorded (mark g node)" using "1.prems" by (rule recorded_mark)
    then have "recorded (dfs_for (mark g node) (edges_of g node) end_node)"
      using 1(1)[OF refl False] by (simp add: mark_def edges_of_def)
    with False show ?thesis by (simp add: dfs_step)
  qed
next
  case (2 g end_node)
  then show ?case by simp
next
  case (3 g edge rest end_node)
  show ?case
  proof (cases "neighbour edge \<in> visited_nodes g")
    case True
    with 3(3) "3.prems" show ?thesis by simp
  next
    case False
    from 3(1)[OF False "3.prems" False] have "recorded (dfs g (neighbour edge) end_node)" .
    from 3(2)[OF False this] False show ?thesis by simp
  qed
qed

text \<open>
  Every node that \<open>dfs\<close> marks, other than the target, has all its neighbours marked
  when \<open>dfs\<close> returns: the search goes on after the target is found.
\<close>

lemma dfs_closed:
  shows "\<forall>n \<in> visited_nodes (dfs g node e) - visited_nodes g.
           n \<noteq> e \<longrightarrow> neighbour ` set (edges_of g n) \<subseteq> visited_nodes (dfs g node e)"
    and "(\<forall>n \<in> visited_nodes (dfs_for g es e) - visited_nodes g.
            n \<noteq> e \<longrightarrow> neighbour ` set (edges_of g n) \<subseteq> visited_nodes (dfs_for g es e))
         \<and> neighbour ` set es \<subseteq> visited_nodes (dfs_for g es e)"
proof (induct g node e and g es e rule: dfs_dfs_for.induct)
  case (1 g node end_node)
  show ?case
  proof (cases "node = end_node")
    case True
    then show ?thesis by (auto simp: dfs_found)
  next
    case False
    let ?r = "dfs_for (mark g node) (edges_of g node) end_node"
    have ih: "(\<forall>n \<in> visited_nodes ?r - visited_nodes (mark g node).
                 n \<noteq> end_node \<longrightarrow> neighbour ` set (edges_of g n) \<subseteq> visited_nodes ?r)
              \<and> neighbour ` set (edges_of g node) \<subseteq> visited_nodes ?r"
      using 1(1)[OF refl False] by (simp add: mark_def edges_of_def)
    have "\<forall>n \<in> visited_nodes ?r - visited_nodes g.
            n \<noteq> end_node \<longrightarrow> neighbour ` set (edges_of g n) \<subseteq> visited_nodes ?r"
    proof (intro ballI impI)
      fix n assume n: "n \<in> visited_nodes ?r - visited_nodes g" "n \<noteq> end_node"
      show "neighbour ` set (edges_of g n) \<subseteq> visited_nodes ?r"
      proof (cases "n = node")
        case True
        with ih show ?thesis by simp
      next
        case False
        with n have "n \<in> visited_nodes ?r - visited_nodes (mark g node)" by simp
        with ih n(2) show ?thesis by blast
      qed
    qed
    with False show ?thesis by (simp add: dfs_step)
  qed
next
  case (2 g end_node)
  show ?case by simp
next
  case (3 g edge rest end_node)
  show ?case
  proof (cases "neighbour edge \<in> visited_nodes g")
    case True
    have "visited_nodes g \<subseteq> visited_nodes (dfs_for g rest end_node)"
      by (rule dfs_visited_mono)
    with True 3(3) show ?thesis by auto
  next
    case False
    let ?r1 = "dfs g (neighbour edge) end_node"
    let ?r = "dfs_for ?r1 rest end_node"
    have m1: "insert (neighbour edge) (visited_nodes g) \<subseteq> visited_nodes ?r1"
      by (rule dfs_visited_mono)
    have m2: "visited_nodes ?r1 \<subseteq> visited_nodes ?r" by (rule dfs_visited_mono)
    have ih1: "\<forall>n \<in> visited_nodes ?r1 - visited_nodes g.
                 n \<noteq> end_node \<longrightarrow> neighbour ` set (edges_of g n) \<subseteq> visited_nodes ?r1"
      using 3(1)[OF False] .
    have ih2: "(\<forall>n \<in> visited_nodes ?r - visited_nodes ?r1.
                  n \<noteq> end_node \<longrightarrow> neighbour ` set (edges_of g n) \<subseteq> visited_nodes ?r)
               \<and> neighbour ` set rest \<subseteq> visited_nodes ?r"
      using 3(2)[OF False] by (simp add: dfs_edges_of)
    have "\<forall>n \<in> visited_nodes ?r - visited_nodes g.
            n \<noteq> end_node \<longrightarrow> neighbour ` set (edges_of g n) \<subseteq> visited_nodes ?r"
    proof (intro ballI impI)
      fix n assume n: "n \<in> visited_nodes ?r - visited_nodes g" "n \<noteq> end_node"
      show "neighbour ` set (edges_of g n) \<subseteq> visited_nodes ?r"
      proof (cases "n \<in> visited_nodes ?r1")
        case True
        with n ih1 have "neighbour ` set (edges_of g n) \<subseteq> visited_nodes ?r1" by blast
        with m2 show ?thesis by blast
      next
        case False
        with n ih2 show ?thesis by blast
      qed
    qed
    moreover have "neighbour ` set (edge # rest) \<subseteq> visited_nodes ?r"
      using ih2 m1 m2 by auto
    ultimately show ?thesis using False by simp
  qed
qed


text \<open>
  \<open>_bfs\<close> stays inside any set of nodes that holds the queue and the marked nodes and
  is closed under the neighbours of all its members other than the target.
\<close>

lemma bfs_for_recorded:
  "recorded g \<Longrightarrow> recorded (bfs_for g es)"
proof (induction es arbitrary: g)
  case Nil
  then show ?case by simp
next
  case (Cons e es)
  show ?case
  proof (cases "neighbour e \<in> visited_nodes g")
    case True
    with Cons show ?thesis by simp
  next
    case False
    let ?g = "g\<lparr>fifo_queue := enqueue (fifo_queue g) (neighbour e),
                      visited_nodes := insert (neighbour e) (visited_nodes g),
                      traversal_order := traversal_order g @ [neighbour e]\<rparr>"
    from Cons.prems False have "recorded ?g" by (auto simp: recorded_def)
    then have "recorded (bfs_for ?g es)" by (rule Cons.IH)
    with False show ?thesis by simp
  qed
qed

lemma bfs_while_recorded: "recorded g \<Longrightarrow> recorded (bfs_while g e)"
proof (induct g e rule: bfs_while.induct)
  case (1 g end_node)
  show ?case
  proof (cases "fifo_queue g")
    case Nil
    with "1.prems" show ?thesis by (simp add: bfs_while_empty)
  next
    case (Cons c q)
    show ?thesis
    proof (cases "c = end_node")
      case True
      with Cons "1.prems" show ?thesis by (simp add: bfs_while_found recorded_def)
    next
      case False
      from "1.prems" have "recorded (g\<lparr>fifo_queue := q\<rparr>)" by (simp add: recorded_def)
      then have "recorded (bfs_for (g\<lparr>fifo_queue := q\<rparr>) (edges_of (g\<lparr>fifo_queue := q\<rparr>) c))"
        by (rule bfs_for_recorded)
      from 1(1)[OF Cons refl False this] Cons False show ?thesis
        by (simp add: bfs_while_step edges_of_def)
    qed
  qed
qed

lemma bfs_while_inside:
  assumes "\<forall>n \<in> D. n \<noteq> e \<longrightarrow> neighbour ` set (edges_of g n) \<subseteq> D"
  shows "set (fifo_queue g) \<subseteq> D \<Longrightarrow> visited_nodes g \<subseteq> D \<Longrightarrow> visited_nodes (bfs_while g e) \<subseteq> D"
  using assms
proof (induct g e rule: bfs_while.induct)
  case (1 g end_node)
  show ?case
  proof (cases "fifo_queue g")
    case Nil
    with "1.prems" show ?thesis by (simp add: bfs_while_empty)
  next
    case (Cons c q)
    show ?thesis
    proof (cases "c = end_node")
      case True
      with Cons "1.prems" show ?thesis by (simp add: bfs_while_found)
    next
      case False
      let ?g1 = "g\<lparr>fifo_queue := q\<rparr>"
      let ?g' = "bfs_for ?g1 (edges_of ?g1 c)"
      from "1.prems"(1) Cons have cD: "c \<in> D" and qD: "set q \<subseteq> D" by auto
      with False "1.prems"(3) have nb: "neighbour ` set (edges_of g c) \<subseteq> D" by blast
      have e1: "edges_of ?g1 c = edges_of g c" by (simp add: edges_of_def)
      have "set (fifo_queue ?g') \<subseteq> D"
        using bfs_for_queue[of ?g1 "edges_of ?g1 c"] qD nb e1 by auto
      moreover have "visited_nodes ?g' \<subseteq> D"
        using bfs_for_visited_upper[of ?g1 "edges_of ?g1 c"] "1.prems"(2) nb e1 by auto
      moreover have "\<forall>n \<in> D. n \<noteq> end_node \<longrightarrow> neighbour ` set (edges_of ?g' n) \<subseteq> D"
        using "1.prems"(3) by (simp add: edges_of_def bfs_for_nodes)
      ultimately have "visited_nodes (bfs_while ?g' end_node) \<subseteq> D"
        by (rule 1(1)[OF Cons refl False])
      with Cons False show ?thesis by (simp add: bfs_while_step edges_of_def)
    qed
  qed
qed

text \<open>
  On an object between two public calls whose queue is empty, the result of
  \<open>find_shortest_path\<close> is not longer than that of \<open>find_path\<close>.
\<close>

lemma find_shortest_path_le_find_path:
  assumes "graph_inv g" and "fifo_queue g = []"
    and "fst (find_path g a b) = Inr (Some p)"
    and "fst (find_shortest_path g a b) = Inr (Some q)"
  shows "length q \<le> length p"
proof -
  from assms(1) have v: "visited_nodes g = {}" and o: "traversal_order g = []"
    by (simp_all add: graph_inv_def idle_def)
  from assms(3) have p: "p = traversal_order (dfs g a b)"
    by (auto simp: find_path_def Let_def split: sum.splits if_splits)
  from assms(4) have q: "q = traversal_order (bfs g a b)"
    by (auto simp: find_shortest_path_def Let_def split: sum.splits if_splits)
  let ?D = "visited_nodes (dfs g a b)"
  have rd: "recorded (dfs g a b)"
    using dfs_recorded(1)[of g a b] v o by (simp add: recorded_def)
  have aD: "a \<in> ?D" using dfs_visited_mono(1)[of a g b] by simp
  have cl: "\<forall>n \<in> ?D. n \<noteq> b \<longrightarrow> neighbour ` set (edges_of g n) \<subseteq> ?D"
    using dfs_closed(1)[of g a b] v by simp
  let ?g0 = "g\<lparr>fifo_queue := enqueue (fifo_queue g) a, visited_nodes := {a},
                traversal_order := [a]\<rparr>"
  have rb: "recorded (bfs_while ?g0 b)"
    by (rule bfs_while_recorded) (simp add: recorded_def)
  have "\<forall>n \<in> ?D. n \<noteq> b \<longrightarrow> neighbour ` set (edges_of ?g0 n) \<subseteq> ?D"
    using cl by (simp add: edges_of_def)
  then have "visited_nodes (bfs_while ?g0 b) \<subseteq> ?D"
    using bfs_while_inside[of ?D b ?g0] aD assms(2) by (simp add: enqueue_def)
  then have "card (visited_nodes (bfs_while ?g0 b)) \<le> card ?D"
    using rd by (intro card_mono) (auto simp: recorded_def intro: finite_subset[OF _ finite_set])
  moreover have "length q = card (visited_nodes (bfs_while ?g0 b))"
    using rb q by (simp add: recorded_def bfs_eq distinct_card[symmetric])
  moreover have "length p = card ?D"
    using rd p by (simp add: recorded_def distinct_card[symmetric])
  ultimately show ?thesis by simp
qed

section \<open>The claims\<close>

text \<open>
  C1 (the code falls short of it). \<open>find_shortest_path\<close> is documented to
  return the shortest path; for the 4-cycle built by adding (A,B), (B,C), (C,D), (D,A) the
  expected result of \<open>find_shortest_path(A, C)\<close> is [A, B, C]. The code returns the order
  in which breadth-first search marked the nodes until C was taken from the queue, which
  is [A, B, D, C]: not a path of the graph (B and D are not adjacent) and longer than the
  shortest path.
\<close>

theorem C1_shortest_path_four_cycle:
  "fst (find_shortest_path four_cycle (PStr ''A'') (PStr ''C''))
     = Inr (Some [PStr ''A'', PStr ''B'', PStr ''D'', PStr ''C''])
   \<and> PStr ''D'' \<notin> neighbour ` set (edges_of four_cycle (PStr ''B''))"
  by code_simp

text \<open>
  C2 (the code falls short of it). A non-empty result of \<open>find_path(a, b)\<close>
  should start with a and end with b. In the graph with the edges (A,B) and (A,C),
  \<open>find_path(A, B)\<close> returns [A, B, C]: the \<open>return\<close> at the target ends the innermost
  call of \<open>_dfs\<close> only, and the loop of the caller goes on to C.
\<close>

theorem C2_find_path_runs_past_target:
  "is_node fork (PStr ''A'') \<and> is_node fork (PStr ''B'')
   \<and> fst (find_path fork (PStr ''A'') (PStr ''B''))
       = Inr (Some [PStr ''A'', PStr ''B'', PStr ''C''])
   \<and> last [PStr ''A'', PStr ''B'', PStr ''C''] \<noteq> PStr ''B''"
  by code_simp

text \<open>
  C3, as stated, fails. With no target, \<open>find_shortest_path(start)\<close> does not return the
  breadth-first order: the order is computed, but the found flag is raised only when a
  dequeued node equals the target \<open>None\<close>, so the method returns the absent result.
  First the claim as stated, refuted on the path graph A-B-C.
\<close>

theorem C3_counterexample:
  "is_node path_graph (PStr ''A'')
   \<and> fst (find_shortest_path path_graph (PStr ''A'') PNone) = Inr None"
  by code_simp

text \<open>
  C3, amended: on every object between two public calls whose nodes do not include
  \<open>None\<close>, \<open>find_shortest_path(start, None)\<close> with \<open>start\<close> present raises nothing and
  returns the absent result.
\<close>

theorem C3_no_target_returns_none:
  assumes "graph_inv g" and "\<not> is_node g PNone" and "is_node g start_node"
  shows "fst (find_shortest_path g start_node PNone) = Inr None"
proof -
  from assms(3) have v: "validate_nodes g start_node PNone = Inr ()"
    by (simp add: validate_nodes_def)
  from assms(1) have inv: "storage_inv g" and idl: "idle g" by (simp_all add: graph_inv_def)
  from idl assms(2) have "\<not> has_path g" and "PNone \<notin> set (fifo_queue g)"
    by (auto simp: idle_def)
  moreover from assms(2,3) have "PNone \<noteq> start_node" by auto
  moreover from assms(2) graph_nodes_is_node[OF inv] have "PNone \<notin> graph_nodes g" by auto
  ultimately have "\<not> has_path (bfs g start_node PNone)"
    using bfs_has_path[of g start_node PNone] by auto
  with v show ?thesis by (simp add: find_shortest_path_def Let_def)
qed

theorem C3_no_target_returns_none_witness:
  "graph_inv four_cycle \<and> \<not> is_node four_cycle PNone \<and> is_node four_cycle (PStr ''B'')
   \<and> fst (find_shortest_path four_cycle (PStr ''B'') PNone) = Inr None"
proof -
  have h1: "graph_inv four_cycle" by code_simp
  have h2: "\<not> is_node four_cycle PNone" by code_simp
  have h3: "is_node four_cycle (PStr ''B'')" by code_simp
  from C3_no_target_returns_none[OF h1 h2 h3] h1 h2 h3 show ?thesis by simp
qed

text \<open>
  C4 (the code falls short of it). The error is to be raised whenever the
  start node or an end node other than \<open>None\<close> is missing. The test of the code is the
  truthiness of the end node, so the missing end node 0 is let through: on the graph whose
  only node is 1, \<open>find_path(1, 0)\<close> and \<open>find_shortest_path(1, 0)\<close> return no path
  instead of raising, and \<open>add_edge(1, 0)\<close> raises nothing and stores the edge,
  creating the node 0.
\<close>

theorem C4_falsy_end_node_not_validated:
  "\<not> is_node single_one (PInt 0)
   \<and> fst (find_path single_one (PInt 1) (PInt 0)) = Inr None
   \<and> fst (find_shortest_path single_one (PInt 1) (PInt 0)) = Inr None
   \<and> fst (add_edge single_one (PInt 1) (PInt 0) None) = Inr ()
   \<and> nodes (snd (add_edge single_one (PInt 1) (PInt 0) None))
       = [(PInt 1, [(PInt 0, None)]), (PInt 0, [(PInt 1, None)])]"
  by code_simp

text \<open>
  C5 (the code falls short of it). No traversal state should be left when
  a public call returns. \<open>_bfs\<close> returns at the target with the rest of the queue in
  place, and nothing empties the queue afterwards: after \<open>find_shortest_path(A, B)\<close> on
  the graph with the edges (A,B), (A,C), (C,D) the queue holds C, and the same call again,
  on the unchanged graph, returns [A, D, B, C] instead of [A, B, C].
\<close>

theorem C5_queue_left_behind:
  "fst (find_shortest_path fork_tail (PStr ''A'') (PStr ''B''))
     = Inr (Some [PStr ''A'', PStr ''B'', PStr ''C''])
   \<and> fifo_queue (snd (find_shortest_path fork_tail (PStr ''A'') (PStr ''B''))) = [PStr ''C'']
   \<and> nodes (snd (find_shortest_path fork_tail (PStr ''A'') (PStr ''B''))) = nodes fork_tail
   \<and> fst (find_shortest_path (snd (find_shortest_path fork_tail (PStr ''A'') (PStr ''B'')))
            (PStr ''A'') (PStr ''B''))
       = Inr (Some [PStr ''A'', PStr ''D'', PStr ''B'', PStr ''C''])"
  by code_simp

text \<open>
  C6 (the code falls short of it). The result of \<open>find_shortest_path\<close>
  should have at most as many edges as that of \<open>find_path\<close>. After
  \<open>find_shortest_path(X, Y)\<close> on the graph with the edges (X,Y), (X,Z), (A,B) the queue
  still holds Z; then \<open>find_path(A, B)\<close> returns [A, B] and \<open>find_shortest_path(A, B)\<close>
  returns [A, X, B, Y, Z], as the search also expands what the queue held.
\<close>

theorem C6_shortest_path_longer_than_path:
  "fifo_queue (snd (find_shortest_path two_parts (PStr ''X'') (PStr ''Y''))) = [PStr ''Z'']
   \<and> fst (find_path (snd (find_shortest_path two_parts (PStr ''X'') (PStr ''Y'')))
            (PStr ''A'') (PStr ''B''))
       = Inr (Some [PStr ''A'', PStr ''B''])
   \<and> fst (find_shortest_path (snd (find_shortest_path two_parts (PStr ''X'') (PStr ''Y'')))
            (PStr ''A'') (PStr ''B''))
       = Inr (Some [PStr ''A'', PStr ''X'', PStr ''B'', PStr ''Y'', PStr ''Z''])"
  by code_simp




text \<open>
  C8. \<open>connected_components\<close> returns one set: the nodes that have at least one edge.
  This holds for every object that satisfies the invariant, so for the object after any
  sequence of public calls on a new graph; a graph with the nodes A, B, C and no edge
  gives the empty set, and the graph with the edges (A,B) and (C,D) gives
  \<open>{A, B, C, D}\<close>.
\<close>

theorem C8_connected_components:
  "(graph_inv (g :: 'w graph) \<longrightarrow>
      fst (connected_components g) = {n \<in> set (map fst (nodes g)). edges_of g n \<noteq> []})
   \<and> fst (connected_components (after_calls k ops :: 'w graph))
       = {n \<in> set (map fst (nodes (after_calls k ops :: 'w graph))).
            edges_of (after_calls k ops :: 'w graph) n \<noteq> []}
   \<and> fst (connected_components no_edges) = {}
   \<and> fst (connected_components two_edges) = {PStr ''A'', PStr ''B'', PStr ''C'', PStr ''D''}"
proof -
  have general: "fst (connected_components h)
                   = {n \<in> set (map fst (nodes h)). edges_of h n \<noteq> []}"
    if gi: "graph_inv h" for h :: "'w graph"
  proof -
    from gi have inv: "storage_inv h" and v: "visited_nodes h = {}"
      by (simp_all add: graph_inv_def idle_def)
    let ?ks = "map fst (nodes h)"
    let ?W = "{n \<in> set ?ks. edges_of h n \<noteq> []}"
    have "graph_nodes h \<subseteq> ?W"
      using graph_nodes_symmetric[OF inv] graph_nodes_is_node[OF inv]
      by (auto simp: is_node_keys)
    with connected_components_for_upper[of h ?ks] v
    have "visited_nodes (connected_components_for h ?ks) \<subseteq> ?W" by auto
    moreover have "?W \<subseteq> visited_nodes (connected_components_for h ?ks)"
      using connected_components_for_lower[of _ ?ks h] by auto
    ultimately show ?thesis
      by (simp add: connected_components_def Let_def)
  qed
  have 1: "graph_inv g \<longrightarrow>
      fst (connected_components g) = {n \<in> set (map fst (nodes g)). edges_of g n \<noteq> []}"
    using general[of g] by simp
  have 2: "fst (connected_components (after_calls k ops :: 'w graph))
       = {n \<in> set (map fst (nodes (after_calls k ops :: 'w graph))).
            edges_of (after_calls k ops :: 'w graph) n \<noteq> []}"
    by (rule general) (rule graph_inv_after_calls)
  have 3: "fst (connected_components no_edges) = {}" by code_simp
  have 4: "fst (connected_components two_edges)
          = {PStr ''A'', PStr ''B'', PStr ''C'', PStr ''D''}" by code_simp
  show ?thesis by (intro conjI 1 2 3 4)
qed

theorem C8_connected_components_witness:
  "graph_inv fork_tail
   \<and> fst (connected_components fork_tail)
       = {n \<in> set (map fst (nodes fork_tail)). edges_of fork_tail n \<noteq> []}
   \<and> fst (connected_components fork_tail) = {PStr ''A'', PStr ''B'', PStr ''C'', PStr ''D''}"
proof -
  have h: "graph_inv fork_tail" by code_simp
  have e: "fst (connected_components fork_tail) = {PStr ''A'', PStr ''B'', PStr ''C'', PStr ''D''}"
    by code_simp
  from C8_connected_components[of fork_tail BaseGraph "[]", THEN conjunct1] h e
  show ?thesis by simp
qed

text \<open>
  C9. On an undirected graph a successful \<open>add_edge(u, v, w)\<close> appends \<open>{v: w}\<close> to the
  edge list of u and then \<open>{u: w}\<close> to the edge list of v (for \<open>u = v\<close> both go to the
  one list), and leaves the entry of every other node as it was. The storage stays
  symmetric, every public call keeps it symmetric and only ever extends edge lists, and
  so the storage is symmetric after any sequence of public calls on a new graph.
\<close>

theorem C9_undirected_add_edge_symmetric:
  assumes "kind g = UndirectedGraph" and "add_edge g u v w = (Inr (), g')"
  shows "edges_of g' u = edges_of g u @ (v, w) # (if u = v then [(u, w)] else [])
   \<and> edges_of g' v = (if u = v then edges_of g u @ [(v, w)] else edges_of g v) @ [(u, w)]
   \<and> (\<forall>n. n \<noteq> u \<and> n \<noteq> v \<longrightarrow> map_of (nodes g') n = map_of (nodes g) n)
   \<and> (storage_inv g \<longrightarrow> storage_inv g')
   \<and> (\<forall>(h :: 'w graph) op. storage_inv h \<longrightarrow> storage_inv (run h op))
   \<and> (\<forall>(h :: 'w graph) op n. \<exists>ys. edges_of (run h op) n = edges_of h n @ ys)
   \<and> (\<forall>k ops. storage_inv (after_calls k ops :: 'w graph))"
proof -
  from assms have ok: "add_edge_UndirectedGraph g u v w = (Inr (), g')"
    by (simp add: add_edge_def)
  have 1: "edges_of g' u = edges_of g u @ (v, w) # (if u = v then [(u, w)] else [])"
    by (simp add: edges_of_add_edge[OF ok])
  have 2: "edges_of g' v = (if u = v then edges_of g u @ [(v, w)] else edges_of g v) @ [(u, w)]"
    by (simp add: edges_of_add_edge[OF ok])
  have 3: "\<forall>n. n \<noteq> u \<and> n \<noteq> v \<longrightarrow> map_of (nodes g') n = map_of (nodes g) n"
    unfolding add_edge_UndirectedGraph_ok[OF ok] by (simp add: map_of_append_edge)
  have 4: "storage_inv g \<longrightarrow> storage_inv g'"
    using storage_inv_add_edge_UndirectedGraph[of g u v w] ok by simp
  have 5: "\<forall>(h :: 'w graph) op. storage_inv h \<longrightarrow> storage_inv (run h op)"
    by (simp add: storage_inv_run)
  have 6: "\<forall>(h :: 'w graph) op n. \<exists>ys. edges_of (run h op) n = edges_of h n @ ys"
    by (simp add: edges_of_run)
  have 7: "\<forall>k ops. storage_inv (after_calls k ops :: 'w graph)"
  proof (intro allI)
    fix k and ops :: "'w operation list"
    have "graph_inv (after_calls k ops)" by (rule graph_inv_after_calls)
    then show "storage_inv (after_calls k ops)" by (simp add: graph_inv_def)
  qed
  show ?thesis by (intro conjI 1 2 3 4 5 6 7)
qed

theorem C9_undirected_add_edge_symmetric_witness:
  "kind fork = UndirectedGraph
   \<and> fst (add_edge fork (PStr ''B'') (PStr ''C'') (Some 7)) = Inr ()
   \<and> storage_inv fork
   \<and> edges_of (snd (add_edge fork (PStr ''B'') (PStr ''C'') (Some 7))) (PStr ''B'')
       = [(PStr ''A'', None), (PStr ''C'', Some 7)]
   \<and> edges_of (snd (add_edge fork (PStr ''B'') (PStr ''C'') (Some 7))) (PStr ''C'')
       = [(PStr ''A'', None), (PStr ''B'', Some 7)]
   \<and> map_of (nodes (snd (add_edge fork (PStr ''B'') (PStr ''C'') (Some 7)))) (PStr ''A'')
       = map_of (nodes fork) (PStr ''A'')
   \<and> storage_inv (snd (add_edge fork (PStr ''B'') (PStr ''C'') (Some 7)))"
proof -
  let ?g' = "snd (add_edge fork (PStr ''B'') (PStr ''C'') (Some 7))"
  have h1: "kind fork = UndirectedGraph" by code_simp
  have r: "fst (add_edge fork (PStr ''B'') (PStr ''C'') (Some 7)) = Inr ()" by code_simp
  then have h2: "add_edge fork (PStr ''B'') (PStr ''C'') (Some 7) = (Inr (), ?g')"
    by (simp add: prod_eq_iff)
  have s: "storage_inv fork" by code_simp
  have b: "edges_of fork (PStr ''B'') = [(PStr ''A'', None)]" by code_simp
  have c: "edges_of fork (PStr ''C'') = [(PStr ''A'', None)]" by code_simp
  note t = C9_undirected_add_edge_symmetric[OF h1 h2]
  have m: "map_of (nodes ?g') (PStr ''A'') = map_of (nodes fork) (PStr ''A'')"
    using t[THEN conjunct2, THEN conjunct2, THEN conjunct1, rule_format, of "PStr ''A''"]
    by simp
  have e1: "edges_of ?g' (PStr ''B'') = [(PStr ''A'', None), (PStr ''C'', Some 7)]"
    using t[THEN conjunct1] b by simp
  have e2: "edges_of ?g' (PStr ''C'') = [(PStr ''A'', None), (PStr ''B'', Some 7)]"
    using t[THEN conjunct2, THEN conjunct1] c by simp
  have s': "storage_inv ?g'"
    using t[THEN conjunct2, THEN conjunct2, THEN conjunct2, THEN conjunct1] s by simp
  show ?thesis by (intro conjI h1 r s e1 e2 m s')
qed

text \<open>
  C10. \<open>add_edge\<close> on an object of the base class is a silent no-op: whatever the
  arguments, nothing is raised and the object is unchanged. The undirected class, on the
  same call on an empty graph, raises the error for the missing node, and with both nodes
  present it changes the storage.
\<close>

theorem C10_base_add_edge_noop:
  "(kind g = BaseGraph \<longrightarrow> add_edge g from_node to_node weight = (Inr (), g))
   \<and> fst (add_edge (init_graph UndirectedGraph :: int graph) (PStr ''A'') (PStr ''B'') None)
       = Inl (ValueError (PStr ''A''))
   \<and> nodes (snd (add_edge fork (PStr ''B'') (PStr ''C'') None)) \<noteq> nodes fork"
proof (intro conjI impI)
  assume "kind g = BaseGraph"
  then show "add_edge g from_node to_node weight = (Inr (), g)"
    by (simp add: add_edge_def add_edge_BaseGraph_def)
next
  show "fst (add_edge (init_graph UndirectedGraph :: int graph) (PStr ''A'') (PStr ''B'') None)
       = Inl (ValueError (PStr ''A''))" by code_simp
next
  show "nodes (snd (add_edge fork (PStr ''B'') (PStr ''C'') None)) \<noteq> nodes fork" by code_simp
qed

theorem C10_base_add_edge_noop_witness:
  "kind (add_node (init_graph BaseGraph :: int graph) (PStr ''A'')) = BaseGraph
   \<and> add_edge (add_node (init_graph BaseGraph :: int graph) (PStr ''A'')) (PStr ''A'') (PStr ''Z'') (Some 3)
       = (Inr (), add_node (init_graph BaseGraph) (PStr ''A''))
   \<and> nodes (add_node (init_graph BaseGraph :: int graph) (PStr ''A'')) = [(PStr ''A'', [])]"
proof -
  have h: "kind (add_node (init_graph BaseGraph :: int graph) (PStr ''A'')) = BaseGraph"
    by code_simp
  have n: "nodes (add_node (init_graph BaseGraph :: int graph) (PStr ''A'')) = [(PStr ''A'', [])]"
    by code_simp
  from C10_base_add_edge_noop[of "add_node (init_graph BaseGraph :: int graph) (PStr ''A'')"
      "PStr ''A''" "PStr ''Z''" "Some 3"] h n
  show ?thesis by simp
qed

end
